theory Spec2Isabelle
  imports Complex_Main "HOL-Library.Monad_Syntax"
begin

section \<open>The ingest pipeline of BlueskyPostCollector\<close>

text \<open>
  A shallow embedding of \<^verbatim>\<open>app/post_ingestor.py\<close> (class \<^verbatim>\<open>BlueskyIngest\<close>) and
  \<^verbatim>\<open>data/database.py\<close> (class \<^verbatim>\<open>DatabaseClient\<close>).

  Everything outside the process is a parameter of the model: what the Bluesky API answers
  to each request, what a web page answers, whether the database engine accepts an insert.
  Everything the code does to the outside is recorded, in order, in a trace of events:
  requests, log calls, \<^verbatim>\<open>time.sleep\<close> calls, and the insert. Exceptions are values of
  the type \<open>error\<close>; a \<^verbatim>\<open>try/except\<close> is a case distinction on \<open>Inl\<close>. The two
  \<^verbatim>\<open>while True\<close> loops of the source are partial functions in the option monad, where
  \<open>None\<close> stands for a loop that never ends.

  The constructor of \<^verbatim>\<open>BlueskyIngest\<close> (configuration, logger, authentication, the
  accounts file) is not part of the model: a state holds the account list it has loaded.
  The request parameters and headers of a feed request are fixed by the account, so a
  request is given by its account.
\<close>

subsection \<open>The JSON of \<^verbatim>\<open>app.bsky.feed.getAuthorFeed\<close>\<close>

text \<open>
  The code reads the response with \<^verbatim>\<open>dict.get(key, default)\<close> throughout, so every key
  may be missing: a field is an \<open>option\<close>, \<open>None\<close> for a missing key. A key that is
  present holds a value of the type the API gives it (a string, an object, a list).
\<close>

record external_view =
  ext_title :: "string option"
  ext_uri :: "string option"

record embed_view =
  embed_external :: "external_view option"

record feed_record =
  rec_type :: "string option"
  rec_text :: "string option"
  rec_createdAt :: "string option"
  rec_embed :: "embed_view option"

record author_view =
  displayName :: "string option"

record post_view =
  uri :: "string option"
  post_record :: "feed_record option"
  post_author :: "author_view option"

record feed_item =
  item_post :: "post_view option"

record feed_body =
  feed :: "feed_item list option"

text \<open>\<^verbatim>\<open>d.get(key, default)\<close>, and the empty dictionaries \<^verbatim>\<open>{}\<close> used as defaults.\<close>

definition dict_get :: "'a option \<Rightarrow> 'a \<Rightarrow> 'a" where
  "dict_get v dflt = (case v of None \<Rightarrow> dflt | Some x \<Rightarrow> x)"

definition empty_external :: external_view where
  "empty_external = \<lparr>ext_title = None, ext_uri = None\<rparr>"

definition empty_embed :: embed_view where
  "empty_embed = \<lparr>embed_external = None\<rparr>"

definition empty_record :: feed_record where
  "empty_record = \<lparr>rec_type = None, rec_text = None, rec_createdAt = None, rec_embed = None\<rparr>"

definition empty_author :: author_view where
  "empty_author = \<lparr>displayName = None\<rparr>"

definition empty_post :: post_view where
  "empty_post = \<lparr>uri = None, post_record = None, post_author = None\<rparr>"

subsection \<open>Rows, errors and events\<close>

text \<open>
  A row of the data frame built by \<^verbatim>\<open>_collect_posts\<close> (seven columns), and a row of the
  \<^verbatim>\<open>posts\<close> table (the nine columns of the schema). The \<^verbatim>\<open>uuid\<close> column of the table
  may hold NULL, which \<^verbatim>\<open>get_existing_uuids\<close> drops; a parsed timestamp is a number of
  nanoseconds, or \<open>None\<close> for \<^verbatim>\<open>NaT\<close>.
\<close>

record post =
  uuid :: string
  author :: string
  display_name :: string
  title :: string
  post_text :: string
  timestamp :: string
  external_url :: string

record db_row =
  db_uuid :: "string option"
  db_author :: string
  db_display_name :: string
  db_title :: string
  db_text :: string
  db_timestamp :: "int option"
  db_external_url :: string
  db_page_title :: string
  db_meta_description :: string

datatype error =
    Transport_Error
  | HTTP_Error nat
  | JSON_Decode_Error
  | Parse_Error
  | Attribute_Error
  | Storage_Error
  | Keyboard_Interrupt

datatype level = DEBUG | INFO | WARNING | ERROR

datatype message =
    Starting int
  | Sleeping real
  | Shutdown
  | No_Posts_Collected
  | Found_New nat
  | No_New_Posts
  | Rate_Limited
  | Error_Fetching string error
  | Inserted nat
  | DB_Insert_Failed

text \<open>
  A request carries the time it took; \<open>Sleep d\<close> is \<^verbatim>\<open>time.sleep(d)\<close>; \<open>To_Datetime\<close> is
  the call of \<^verbatim>\<open>pd.to_datetime\<close> on the timestamp column; \<open>To_Sql\<close> is the call of
  \<^verbatim>\<open>df.to_sql(..., if_exists="append")\<close> with the batch it is given.
\<close>

datatype event =
    Log level message
  | Sleep real
  | Feed_Request string real
  | Meta_Request string real
  | To_Datetime "string list"
  | To_Sql "db_row list"

subsection \<open>The outside world\<close>

text \<open>
  \<open>Transport_Failure\<close>: \<^verbatim>\<open>requests.get\<close> raised (connection error, timeout).
  \<open>Response code body\<close>: a response with that status; \<open>body\<close> is its JSON, \<open>None\<close> when
  the body is not JSON (\<^verbatim>\<open>resp.json()\<close> raises).
\<close>

datatype reply = Transport_Failure | Response nat "feed_body option"

text \<open>
  What BeautifulSoup finds in a page. \<open>soup_title\<close>: \<open>None\<close> when there is no title tag
  (\<^verbatim>\<open>soup.title\<close> is \<^verbatim>\<open>None\<close>), \<open>Some None\<close> when the tag has no single string
  (\<^verbatim>\<open>soup.title.string\<close> is \<^verbatim>\<open>None\<close>). A meta tag is given by its \<^verbatim>\<open>content\<close>
  attribute, \<open>None\<close> when the tag lacks it.
\<close>

record soup =
  soup_title :: "string option option"
  og_description :: "string option option"
  name_description :: "string option option"

text \<open>
  \<open>Get_Failed\<close>: \<^verbatim>\<open>requests.get\<close> raised. \<open>Page code doc\<close>: a response with that
  status; \<open>doc\<close> is the parsed document, \<open>None\<close> when the parser raised.
\<close>

datatype page_reply = Get_Failed | Page nat "soup option"

text \<open>
  The environment of one run. \<open>upstream actor n\<close> is the answer to the request number \<open>n\<close>
  (from 0) of one call of \<^verbatim>\<open>_fetch_author_feed(actor)\<close>, with the time the request took;
  \<open>web url\<close> is the answer of the page at \<open>url\<close>; \<open>to_datetime\<close> is
  \<^verbatim>\<open>pd.to_datetime(_, utc=True, errors="coerce")\<close> on one value; \<open>insert_fails\<close> says that
  the engine raises \<^verbatim>\<open>SQLAlchemyError\<close> on this run's insert; \<open>ctrl_c\<close> says that
  \<^verbatim>\<open>KeyboardInterrupt\<close> arrives while the scheduler sleeps after this run.
\<close>

record env =
  upstream :: "string \<Rightarrow> nat \<Rightarrow> real \<times> reply"
  web :: "string \<Rightarrow> real \<times> page_reply"
  to_datetime :: "string \<Rightarrow> int option"
  insert_fails :: bool
  ctrl_c :: bool

text \<open>
  The state: the fields \<^verbatim>\<open>accounts\<close> and \<^verbatim>\<open>existing_uuids\<close> of the
  \<^verbatim>\<open>BlueskyIngest\<close> object, the \<^verbatim>\<open>posts\<close> table of the database (\<open>None\<close> when the
  table does not exist), and the trace of events so far.
\<close>

record state =
  accounts :: "string list"
  existing_uuids :: "string set"
  table :: "db_row list option"
  trace :: "event list"

definition emit :: "event list \<Rightarrow> state \<Rightarrow> state" where
  "emit evs s = s\<lparr>trace := trace s @ evs\<rparr>"

text \<open>
  \<^verbatim>\<open>time.time()\<close>: the time that has passed in the events so far. Only differences of
  two readings are used by the code. Time is a real number here; the code computes with
  floats.
\<close>

fun duration :: "event \<Rightarrow> real" where
  "duration (Sleep d) = d"
| "duration (Feed_Request actor took) = took"
| "duration (Meta_Request url took) = took"
| "duration (Log l m) = 0"
| "duration (To_Datetime col) = 0"
| "duration (To_Sql rows) = 0"

definition time_of :: "event list \<Rightarrow> real" where
  "time_of evs = sum_list (map duration evs)"

definition time_time :: "state \<Rightarrow> real" where
  "time_time s = time_of (trace s)"

subsection \<open>\<^verbatim>\<open>DatabaseClient\<close>\<close>

text \<open>
  \<^verbatim>\<open>_ensure_table\<close> creates the empty table when it is missing.
  \<^verbatim>\<open>get_existing_uuids\<close> returns the empty set when the table is missing, otherwise the
  non-NULL values of the \<^verbatim>\<open>uuid\<close> column.
\<close>

definition ensure_table :: "state \<Rightarrow> state" where
  "ensure_table s = (case table s of None \<Rightarrow> s\<lparr>table := Some []\<rparr> | Some rows \<Rightarrow> s)"

definition dropna :: "'a option list \<Rightarrow> 'a list" where
  "dropna col = concat (map (\<lambda>v. case v of None \<Rightarrow> [] | Some x \<Rightarrow> [x]) col)"

definition get_existing_uuids :: "state \<Rightarrow> string set" where
  "get_existing_uuids s =
     (case table s of
        None \<Rightarrow> {}
      | Some rows \<Rightarrow> set (dropna (map db_uuid rows)))"

text \<open>
  \<^verbatim>\<open>append_dataframe\<close>: the insert either succeeds, appending the batch (and creating the
  table when it is missing, as \<^verbatim>\<open>to_sql\<close> does), or raises, in which case the error is
  logged and raised again and the table is unchanged.
\<close>

definition append_dataframe :: "env \<Rightarrow> db_row list \<Rightarrow> state \<Rightarrow> (error + unit) \<times> state" where
  "append_dataframe e df s =
     (let s1 = emit [To_Sql df] s in
      if insert_fails e then (Inl Storage_Error, emit [Log ERROR DB_Insert_Failed] s1)
      else (Inr (), emit [Log INFO (Inserted (length df))]
                      (s1\<lparr>table := Some (dict_get (table s1) [] @ df)\<rparr>)))"

subsection \<open>\<^verbatim>\<open>_fetch_author_feed\<close>\<close>

text \<open>
  \<^verbatim>\<open>resp.raise_for_status()\<close> raises for a status from 400 to 599; \<^verbatim>\<open>resp.json()\<close> raises
  when the body is not JSON.
\<close>

definition raise_for_status :: "nat \<Rightarrow> error + unit" where
  "raise_for_status code = (if 400 \<le> code \<and> code < 600 then Inl (HTTP_Error code) else Inr ())"

definition json :: "'a option \<Rightarrow> error + 'a" where
  "json body = (case body of None \<Rightarrow> Inl JSON_Decode_Error | Some j \<Rightarrow> Inr j)"

definition deliver :: "reply \<Rightarrow> error + feed_body" where
  "deliver r =
     (case r of
        Transport_Failure \<Rightarrow> Inl Transport_Error
      | Response code body \<Rightarrow>
          (case raise_for_status code of Inl e \<Rightarrow> Inl e | Inr u \<Rightarrow> json body))"

definition rate_limited :: "reply \<Rightarrow> bool" where
  "rate_limited r = (case r of Transport_Failure \<Rightarrow> False | Response code body \<Rightarrow> code = 429)"

text \<open>
  The loop \<^verbatim>\<open>while True\<close>, from request number \<open>n\<close> on. The result is the outcome of the
  call (the JSON returned, or the exception raised) with the events of the call; \<open>None\<close>
  when the loop never ends.
\<close>

partial_function (option) fetch_attempts ::
  "(nat \<Rightarrow> real \<times> reply) \<Rightarrow> string \<Rightarrow> nat \<Rightarrow> ((error + feed_body) \<times> event list) option" where
  "fetch_attempts replies actor n =
     (let (took, resp) = replies n in
      if \<not> rate_limited resp then Some (deliver resp, [Feed_Request actor took])
      else do {
        (res, evs) \<leftarrow> fetch_attempts replies actor (Suc n);
        Some (res, [Feed_Request actor took, Log WARNING Rate_Limited, Sleep 5] @ evs)
      })"

definition fetch_author_feed :: "env \<Rightarrow> string \<Rightarrow> ((error + feed_body) \<times> event list) option" where
  "fetch_author_feed e actor = fetch_attempts (upstream e actor) actor 0"

subsection \<open>\<^verbatim>\<open>_collect_posts\<close>\<close>

text \<open>
  \<^verbatim>\<open>str.strip()\<close> removes the leading and trailing whitespace. A string is the list of
  its code points, which a \<open>char\<close> holds up to 255; among these the whitespace of Python
  is the codes 9 to 13, 28 to 32, 133 and 160.
\<close>

definition is_space :: "char \<Rightarrow> bool" where
  "is_space c = (let n = of_char c :: nat in (9 \<le> n \<and> n \<le> 13) \<or> (28 \<le> n \<and> n \<le> 32) \<or> n = 133 \<or> n = 160)"

definition strip :: "string \<Rightarrow> string" where
  "strip s = rev (dropWhile is_space (rev (dropWhile is_space s)))"

text \<open>The body of the loop \<^verbatim>\<open>for item in feed\<close>; \<open>posts\<close> is the list appended to.\<close>

fun collect_feed :: "string set \<Rightarrow> string \<Rightarrow> feed_item list \<Rightarrow> post list \<Rightarrow> post list" where
  "collect_feed known acct [] posts = posts"
| "collect_feed known acct (item # items) posts =
     (let p = dict_get (item_post item) empty_post;
          rec = dict_get (post_record p) empty_record;
          auth = dict_get (post_author p) empty_author
      in if rec_type rec \<noteq> Some ''app.bsky.feed.post'' then collect_feed known acct items posts
         else
           let u = dict_get (uri p) '''' in
           if u \<in> known then collect_feed known acct items posts
           else collect_feed known acct items (posts @ [\<lparr>
             uuid = u,
             author = acct,
             display_name = dict_get (displayName auth) '''',
             title = dict_get (ext_title (dict_get (embed_external (dict_get (rec_embed rec) empty_embed)) empty_external)) '''',
             post_text = strip (dict_get (rec_text rec) ''''),
             timestamp = dict_get (rec_createdAt rec) '''',
             external_url = dict_get (ext_uri (dict_get (embed_external (dict_get (rec_embed rec) empty_embed)) empty_external)) ''''
           \<rparr>]))"

text \<open>
  The loop \<^verbatim>\<open>for acct in self.accounts\<close> with its \<^verbatim>\<open>try/except Exception\<close>: an exception
  of the fetch is logged and the loop goes on with the next account; after a feed has been
  read the code sleeps 5 seconds.
\<close>

fun collect_accounts :: "env \<Rightarrow> string list \<Rightarrow> post list \<Rightarrow> state \<Rightarrow> (post list \<times> state) option" where
  "collect_accounts e [] posts s = Some (posts, s)"
| "collect_accounts e (acct # accts) posts s =
     (case fetch_author_feed e acct of
        None \<Rightarrow> None
      | Some (Inl err, evs) \<Rightarrow>
          collect_accounts e accts posts (emit (evs @ [Log ERROR (Error_Fetching acct err)]) s)
      | Some (Inr body, evs) \<Rightarrow>
          collect_accounts e accts
            (collect_feed (existing_uuids s) acct (dict_get (feed body) []) posts)
            (emit (evs @ [Sleep 5]) s))"

text \<open>
  A data frame is the list of its rows. \<^verbatim>\<open>DataFrame.drop_duplicates(subset="uuid")\<close>
  keeps the first row of each uuid, in order; \<open>seen\<close> holds the uuids of the rows kept so
  far. The frame of an empty list has no rows and no columns, and \<^verbatim>\<open>drop_duplicates\<close>
  returns an empty frame as it is.
\<close>

fun keep_first :: "string set \<Rightarrow> post list \<Rightarrow> post list" where
  "keep_first seen [] = []"
| "keep_first seen (p # ps) =
     (if uuid p \<in> seen then keep_first seen ps else p # keep_first (insert (uuid p) seen) ps)"

definition drop_duplicates :: "post list \<Rightarrow> post list" where
  "drop_duplicates df = keep_first {} df"

definition collect_posts :: "env \<Rightarrow> state \<Rightarrow> (post list \<times> state) option" where
  "collect_posts e s =
     (case collect_accounts e (accounts s) [] s of
        None \<Rightarrow> None
      | Some (posts, s1) \<Rightarrow> Some (drop_duplicates posts, s1))"

subsection \<open>\<^verbatim>\<open>_fetch_metadata\<close> and \<^verbatim>\<open>_enrich_dataframe\<close>\<close>

text \<open>
  The body of the \<^verbatim>\<open>try\<close> of \<^verbatim>\<open>_fetch_metadata\<close>: the GET may raise, so may
  \<^verbatim>\<open>raise_for_status\<close> and the parser; \<^verbatim>\<open>soup.title.string.strip()\<close> raises
  \<^verbatim>\<open>AttributeError\<close> when the title tag has no string. The description is taken from the
  \<^verbatim>\<open>og:description\<close> tag when the document has one, otherwise from the tag named
  \<^verbatim>\<open>description\<close>.
\<close>

definition page_metadata :: "page_reply \<Rightarrow> error + (string \<times> string)" where
  "page_metadata r =
     (case r of
        Get_Failed \<Rightarrow> Inl Transport_Error
      | Page code doc \<Rightarrow>
          (case raise_for_status code of
             Inl e \<Rightarrow> Inl e
           | Inr u \<Rightarrow>
               (case doc of
                  None \<Rightarrow> Inl Parse_Error
                | Some sp \<Rightarrow>
                    (case (case soup_title sp of
                             None \<Rightarrow> Inr ''''
                           | Some None \<Rightarrow> Inl Attribute_Error
                           | Some (Some t) \<Rightarrow> Inr (strip t)) of
                       Inl e \<Rightarrow> Inl e
                     | Inr page_title \<Rightarrow>
                         (let meta = (case og_description sp of
                                        Some m \<Rightarrow> Some m
                                      | None \<Rightarrow> name_description sp);
                              desc = (case meta of
                                        Some (Some c) \<Rightarrow> strip c
                                      | Some None \<Rightarrow> ''''
                                      | None \<Rightarrow> '''')
                          in Inr (page_title, desc))))))"

text \<open>\<^verbatim>\<open>except Exception: return "", ""\<close>.\<close>

definition fetch_metadata :: "env \<Rightarrow> string \<Rightarrow> (string \<times> string) \<times> event list" where
  "fetch_metadata e url =
     (let (took, r) = web e url in
      (case page_metadata r of Inl err \<Rightarrow> ('''', '''') | Inr res \<Rightarrow> res,
       [Meta_Request url took]))"

text \<open>
  \<^verbatim>\<open>_enrich_dataframe\<close> returns an empty frame as it is; otherwise it parses the timestamp
  column and calls \<^verbatim>\<open>_fetch_metadata\<close> on the \<^verbatim>\<open>external_url\<close> of each row, in order.
\<close>

definition enrich_row :: "env \<Rightarrow> post \<Rightarrow> db_row" where
  "enrich_row e p =
     (let (page_title, meta_description) = fst (fetch_metadata e (external_url p)) in
      \<lparr>db_uuid = Some (uuid p),
       db_author = author p,
       db_display_name = display_name p,
       db_title = title p,
       db_text = post_text p,
       db_timestamp = to_datetime e (timestamp p),
       db_external_url = external_url p,
       db_page_title = page_title,
       db_meta_description = meta_description\<rparr>)"

definition enrich_dataframe :: "env \<Rightarrow> post list \<Rightarrow> state \<Rightarrow> db_row list \<times> state" where
  "enrich_dataframe e df s =
     (if df = [] then ([], s)
      else (map (enrich_row e) df,
            emit (To_Datetime (map timestamp df)
                  # concat (map (\<lambda>p. snd (fetch_metadata e (external_url p))) df)) s))"

subsection \<open>\<^verbatim>\<open>run\<close> and \<^verbatim>\<open>run_forever\<close>\<close>

text \<open>
  One run. The result is \<open>None\<close> when a fetch never ends, otherwise the outcome
  (\<open>Inl\<close> the exception that leaves \<^verbatim>\<open>run\<close>) and the state after it. The test
  \<^verbatim>\<open>raw_df.empty or "uuid" not in raw_df.columns\<close> holds exactly for the frame without
  rows: a frame built from at least one row has the column.
\<close>

definition run :: "env \<Rightarrow> state \<Rightarrow> ((error + unit) \<times> state) option" where
  "run e s0 =
     (let s = s0\<lparr>existing_uuids := get_existing_uuids s0\<rparr> in
      case collect_posts e s of
        None \<Rightarrow> None
      | Some (raw_df, s1) \<Rightarrow>
          if raw_df = [] then Some (Inr (), emit [Log INFO No_Posts_Collected] s1)
          else
            let new_df = filter (\<lambda>p. uuid p \<notin> existing_uuids s1) raw_df;
                s2 = emit [Log INFO (Found_New (length new_df))] s1;
                (enriched, s3) = enrich_dataframe e new_df s2
            in if enriched = [] then Some (Inr (), emit [Log INFO No_New_Posts] s3)
               else Some (append_dataframe e enriched s3))"

text \<open>
  One pass through the body of the loop of \<^verbatim>\<open>run_forever\<close>: \<open>Inl\<close> when an exception
  leaves the body, \<open>Inr\<close> when the body has ended and the loop goes on.
\<close>

definition iteration :: "env \<Rightarrow> int \<Rightarrow> state \<Rightarrow> ((error + unit) \<times> state) option" where
  "iteration e interval_minutes s =
     (let start = time_time s in
      case run e s of
        None \<Rightarrow> None
      | Some (Inl err, s1) \<Rightarrow> Some (Inl err, s1)
      | Some (Inr u, s1) \<Rightarrow>
          let elapsed = time_time s1 - start;
              to_sleep = real_of_int interval_minutes * 60 - elapsed
          in if to_sleep > 0 then
               let s2 = emit [Log DEBUG (Sleeping to_sleep)] s1 in
               if ctrl_c e then Some (Inl Keyboard_Interrupt, s2)
               else Some (Inr (), emit [Sleep to_sleep] s2)
             else Some (Inr (), s1))"

text \<open>
  The loop \<^verbatim>\<open>while True\<close>, from pass number \<open>i\<close> on, where \<open>envs i\<close> is the environment
  of pass \<open>i\<close>. The loop has no \<^verbatim>\<open>break\<close>: it ends only by an exception.
\<close>

partial_function (option) ingest_loop ::
  "(nat \<Rightarrow> env) \<Rightarrow> int \<Rightarrow> nat \<Rightarrow> state \<Rightarrow> (error \<times> state) option" where
  "ingest_loop envs interval_minutes i s =
     (case iteration (envs i) interval_minutes s of
        None \<Rightarrow> None
      | Some (Inl err, s1) \<Rightarrow> Some (err, s1)
      | Some (Inr u, s1) \<Rightarrow> ingest_loop envs interval_minutes (Suc i) s1)"

text \<open>
  \<^verbatim>\<open>run_forever\<close>: only \<^verbatim>\<open>KeyboardInterrupt\<close> is caught; any other exception leaves
  \<^verbatim>\<open>run_forever\<close>.
\<close>

definition run_forever :: "(nat \<Rightarrow> env) \<Rightarrow> int \<Rightarrow> state \<Rightarrow> ((error + unit) \<times> state) option" where
  "run_forever envs interval_minutes s =
     (case ingest_loop envs interval_minutes 0 (emit [Log INFO (Starting interval_minutes)] s) of
        None \<Rightarrow> None
      | Some (err, s1) \<Rightarrow>
          if err = Keyboard_Interrupt then Some (Inr (), emit [Log INFO Shutdown] s1)
          else Some (Inl err, s1))"

declare fetch_attempts.simps [code]
declare ingest_loop.simps [code]

subsection \<open>Reading a trace\<close>

text \<open>
  The durations of the \<^verbatim>\<open>time.sleep\<close> calls of a trace, the accounts of its feed requests,
  and the batches given to \<^verbatim>\<open>to_sql\<close>, each in order.
\<close>

definition sleeps :: "event list \<Rightarrow> real list" where
  "sleeps evs = concat (map (\<lambda>ev. case ev of Sleep d \<Rightarrow> [d] | _ \<Rightarrow> []) evs)"

definition feed_requests :: "event list \<Rightarrow> string list" where
  "feed_requests evs = concat (map (\<lambda>ev. case ev of Feed_Request a t \<Rightarrow> [a] | _ \<Rightarrow> []) evs)"

definition batches :: "event list \<Rightarrow> db_row list list" where
  "batches evs = concat (map (\<lambda>ev. case ev of To_Sql rows \<Rightarrow> [rows] | _ \<Rightarrow> []) evs)"

text \<open>The events of enrichment (timestamp parsing, metadata fetching) and of the insert.\<close>

fun is_enrichment :: "event \<Rightarrow> bool" where
  "is_enrichment (To_Datetime col) = True"
| "is_enrichment (Meta_Request url took) = True"
| "is_enrichment ev = False"

fun is_insert :: "event \<Rightarrow> bool" where
  "is_insert (To_Sql rows) = True"
| "is_insert ev = False"

definition quiet :: "event list \<Rightarrow> bool" where
  "quiet evs = list_all (\<lambda>ev. \<not> is_enrichment ev \<and> \<not> is_insert ev) evs"

text \<open>
  The id that \<^verbatim>\<open>_collect_posts\<close> reads from a feed item: \<open>None\<close> for an item that is
  skipped because its record is not of type \<^verbatim>\<open>app.bsky.feed.post\<close>, otherwise the
  \<^verbatim>\<open>uri\<close> of the post, the empty string when the key is missing.
\<close>

definition item_id :: "feed_item \<Rightarrow> string option" where
  "item_id item =
     (let p = dict_get (item_post item) empty_post;
          rec = dict_get (post_record p) empty_record
      in if rec_type rec \<noteq> Some ''app.bsky.feed.post'' then None
         else Some (dict_get (uri p) ''''))"

text \<open>
  An account brings nothing new when its fetch raises, or when every post of its feed has
  an id in \<open>known\<close>.
\<close>

definition nothing_new :: "env \<Rightarrow> string set \<Rightarrow> string \<Rightarrow> bool" where
  "nothing_new e known acct =
     (case fetch_author_feed e acct of
        None \<Rightarrow> False
      | Some (Inl err, evs) \<Rightarrow> True
      | Some (Inr body, evs) \<Rightarrow>
          list_all (\<lambda>item. case item_id item of None \<Rightarrow> True | Some u \<Rightarrow> u \<in> known)
            (dict_get (feed body) []))"

text \<open>
  The ids of the posts that one account brings to the frame, in the order of its feed: none
  when its fetch raises, otherwise the ids of the posts of its feed that are not in
  \<open>known\<close>.
\<close>

definition feed_ids :: "env \<Rightarrow> string set \<Rightarrow> string \<Rightarrow> string list" where
  "feed_ids e known acct =
     (case fetch_author_feed e acct of
        None \<Rightarrow> []
      | Some (Inl err, evs) \<Rightarrow> []
      | Some (Inr body, evs) \<Rightarrow>
          filter (\<lambda>u. u \<notin> known) (dropna (map item_id (dict_get (feed body) []))))"

text \<open>
  The state in which pass number \<open>i\<close> of the loop of \<^verbatim>\<open>run_forever\<close> starts, when the
  loop is entered in the state \<open>s\<close> and the passes before \<open>i\<close> have ended without an
  exception; \<open>None\<close> when the loop does not come to pass \<open>i\<close>.
\<close>

fun pass_start :: "(nat \<Rightarrow> env) \<Rightarrow> int \<Rightarrow> nat \<Rightarrow> state \<Rightarrow> state option" where
  "pass_start envs interval_minutes 0 s = Some s"
| "pass_start envs interval_minutes (Suc i) s =
     (case pass_start envs interval_minutes i s of
        None \<Rightarrow> None
      | Some t \<Rightarrow>
          (case iteration (envs i) interval_minutes t of
             None \<Rightarrow> None
           | Some (Inl err, t1) \<Rightarrow> None
           | Some (Inr u, t1) \<Rightarrow> Some t1))"

subsection \<open>Concrete feeds, pages and stores\<close>

definition mk_item :: "string option \<Rightarrow> feed_item" where
  "mk_item u = \<lparr>item_post = Some \<lparr>uri = u,
      post_record = Some \<lparr>rec_type = Some ''app.bsky.feed.post'', rec_text = Some '' hello '',
        rec_createdAt = Some ''2024-01-01T00:00:00Z'', rec_embed = None\<rparr>,
      post_author = Some \<lparr>displayName = Some ''Name''\<rparr>\<rparr>\<rparr>"

definition ok_reply :: "feed_item list \<Rightarrow> real \<times> reply" where
  "ok_reply items = (0, Response 200 (Some \<lparr>feed = Some items\<rparr>))"

definition quiet_env :: env where
  "quiet_env = \<lparr>
     upstream = (\<lambda>actor n. (0, Transport_Failure)),
     web = (\<lambda>url. (0, Get_Failed)),
     to_datetime = (\<lambda>t. None),
     insert_fails = False,
     ctrl_c = False\<rparr>"

definition empty_store :: state where
  "empty_store = \<lparr>accounts = [], existing_uuids = {}, table = Some [], trace = []\<rparr>"

text \<open>An upstream that answers 429 twice and then 200, and one that always answers 429.\<close>

definition throttled_env :: env where
  "throttled_env = quiet_env\<lparr>upstream :=
     (\<lambda>actor n. if n < 2 then (0, Response 429 None) else ok_reply [mk_item (Some ''p1'')])\<rparr>"

definition always_throttled_env :: env where
  "always_throttled_env = quiet_env\<lparr>upstream := (\<lambda>actor n. (0, Response 429 None))\<rparr>"

text \<open>
  An upstream where the fetch of every account raises, except for the account \<^verbatim>\<open>B\<close>,
  whose feed holds the post \<^verbatim>\<open>p4\<close>.
\<close>

definition flaky_env :: env where
  "flaky_env = quiet_env\<lparr>upstream :=
     (\<lambda>actor n. if actor = ''B'' then ok_reply [mk_item (Some ''p4'')] else (0, Transport_Failure))\<rparr>"

text \<open>A store that already holds the post \<^verbatim>\<open>p4\<close>, with the accounts \<^verbatim>\<open>A\<close> and \<^verbatim>\<open>B\<close>.\<close>

definition p4_row :: db_row where
  "p4_row = \<lparr>db_uuid = Some ''p4'', db_author = ''B'', db_display_name = ''Name'',
     db_title = '''', db_text = ''hello'', db_timestamp = None, db_external_url = '''',
     db_page_title = '''', db_meta_description = ''''\<rparr>"

definition p4_store :: state where
  "p4_store = \<lparr>accounts = [''A'', ''B''], existing_uuids = {}, table = Some [p4_row], trace = []\<rparr>"

definition ab_store :: state where
  "ab_store = empty_store\<lparr>accounts := [''A'', ''B'']\<rparr>"

text \<open>
  An upstream whose feeds hold two posts without an id: one with an empty \<^verbatim>\<open>uri\<close>, one
  with no \<^verbatim>\<open>uri\<close> key. A store with the single account \<^verbatim>\<open>A\<close>.
\<close>

definition missing_id_env :: env where
  "missing_id_env = quiet_env\<lparr>upstream :=
     (\<lambda>actor n. ok_reply [mk_item (Some ''''), mk_item None])\<rparr>"

definition a_store :: state where
  "a_store = empty_store\<lparr>accounts := [''A'']\<rparr>"

text \<open>
  The reference scenario: the feed of \<^verbatim>\<open>A\<close> holds \<^verbatim>\<open>p1\<close>, \<^verbatim>\<open>p2\<close>, \<^verbatim>\<open>p3\<close>, the feed
  of \<^verbatim>\<open>B\<close> holds \<^verbatim>\<open>p3\<close>, \<^verbatim>\<open>p4\<close>.
\<close>

definition scenario_env :: env where
  "scenario_env = quiet_env\<lparr>upstream :=
     (\<lambda>actor n.
        if actor = ''A'' then ok_reply [mk_item (Some ''p1''), mk_item (Some ''p2''), mk_item (Some ''p3'')]
        else if actor = ''B'' then ok_reply [mk_item (Some ''p3''), mk_item (Some ''p4'')]
        else (0, Transport_Failure))\<rparr>"

text \<open>A store whose \<^verbatim>\<open>posts\<close> table does not exist yet.\<close>

definition fresh_store :: state where
  "fresh_store = ab_store\<lparr>table := None\<rparr>"





text \<open>
  An upstream whose requests take 20 seconds and fail, and an environment whose database
  engine rejects the insert.
\<close>

definition slow_env :: env where
  "slow_env = quiet_env\<lparr>upstream := (\<lambda>actor n. (20, Transport_Failure))\<rparr>"

definition bad_db_env :: env where
  "bad_db_env = flaky_env\<lparr>insert_fails := True\<rparr>"

text \<open>
  Two passes: in the first every fetch fails after 20 seconds, in the second the feed of
  \<^verbatim>\<open>B\<close> holds \<^verbatim>\<open>p4\<close> and the database engine rejects the insert.
\<close>

definition two_pass_envs :: "nat \<Rightarrow> env" where
  "two_pass_envs i = (if i = 0 then slow_env else bad_db_env)"


section \<open>Properties\<close>

subsection \<open>The retry loop of \<^verbatim>\<open>_fetch_author_feed\<close>\<close>

text \<open>
  The two cases of one turn of the loop, the result after \<open>N\<close> answers 429, and the loop
  that never ends.
\<close>

lemma fetch_attempts_done:
  "\<not> rate_limited (snd (replies n)) \<Longrightarrow>
   fetch_attempts replies actor n =
     Some (deliver (snd (replies n)), [Feed_Request actor (fst (replies n))])"
  by (subst fetch_attempts.simps) (simp add: split_beta)

lemma fetch_attempts_retry:
  "rate_limited (snd (replies n)) \<Longrightarrow>
   fetch_attempts replies actor n =
     (case fetch_attempts replies actor (Suc n) of
        None \<Rightarrow> None
      | Some (res, evs) \<Rightarrow>
          Some (res, [Feed_Request actor (fst (replies n)), Log WARNING Rate_Limited, Sleep 5] @ evs))"
  by (subst fetch_attempts.simps) (simp add: split_beta split: option.splits bind_splits)

lemma fetch_attempts_after_retries:
  "(\<forall>k<N. rate_limited (snd (replies (n + k)))) \<Longrightarrow> \<not> rate_limited (snd (replies (n + N))) \<Longrightarrow>
   \<exists>evs. fetch_attempts replies actor n = Some (deliver (snd (replies (n + N))), evs)
       \<and> sleeps evs = replicate N 5 \<and> feed_requests evs = replicate (Suc N) actor"
proof (induction N arbitrary: n)
  case 0
  then show ?case by (simp add: fetch_attempts_done sleeps_def feed_requests_def)
next
  case (Suc N)
  have now: "rate_limited (snd (replies n))"
    using Suc.prems(1) [rule_format, of 0] by simp
  have later: "\<forall>k<N. rate_limited (snd (replies (Suc n + k)))"
    using Suc.prems(1) by (metis Suc_less_eq add_Suc_shift)
  have last: "\<not> rate_limited (snd (replies (Suc n + N)))"
    using Suc.prems(2) by simp
  from Suc.IH [OF later last] obtain evs where
    evs: "fetch_attempts replies actor (Suc n) = Some (deliver (snd (replies (Suc n + N))), evs)"
      "sleeps evs = replicate N 5" "feed_requests evs = replicate (Suc N) actor"
    by blast
  show ?case
    using evs now by (simp add: fetch_attempts_retry [of replies n] sleeps_def feed_requests_def)
qed

lemma fetch_attempts_Some_stops:
  assumes "fetch_attempts replies actor n = Some y"
  shows "\<exists>k. \<not> rate_limited (snd (replies k))"
proof (rule fetch_attempts.raw_induct
    [where P = "\<lambda>replies actor n y. \<exists>k. \<not> rate_limited (snd (replies k))", OF _ assms])
  fix f :: "(nat \<Rightarrow> real \<times> reply) \<Rightarrow> string \<Rightarrow> nat \<Rightarrow> ((error + feed_body) \<times> event list) option"
    and replies actor n y
  assume IH: "\<And>replies actor n y. f replies actor n = Some y
      \<Longrightarrow> \<exists>k. \<not> rate_limited (snd (replies k))"
    and step: "(let (took, resp) = replies n in
      if \<not> rate_limited resp then Some (deliver resp, [Feed_Request actor took])
      else do {
        (res, evs) \<leftarrow> f replies actor (Suc n);
        Some (res, [Feed_Request actor took, Log WARNING Rate_Limited, Sleep 5] @ evs)
      }) = Some y"
  show "\<exists>k. \<not> rate_limited (snd (replies k))"
  proof (cases "rate_limited (snd (replies n))")
    case True
    with step obtain y' where "f replies actor (Suc n) = Some y'"
      by (auto simp: split_beta split: bind_splits)
    then show ?thesis by (rule IH)
  next
    case False
    then show ?thesis by blast
  qed
qed

lemma fetch_attempts_forever:
  "\<forall>k. rate_limited (snd (replies k)) \<Longrightarrow> fetch_attempts replies actor n = None"
  using fetch_attempts_Some_stops [of replies actor n]
  by (cases "fetch_attempts replies actor n") auto

text \<open>
  C6. When the upstream answers a call of \<^verbatim>\<open>_fetch_author_feed\<close> with the status 429
  \<open>N\<close> times and then with an answer that is not a 429, the call ends with the outcome of
  that last answer (its JSON, or the exception that \<^verbatim>\<open>raise_for_status\<close>, \<^verbatim>\<open>json()\<close> or
  the transport raises for it), after \<open>N + 1\<close> requests and exactly \<open>N\<close> sleeps of 5
  seconds: no 429 raises. There is no bound on \<open>N\<close>, and when every answer is a 429 the call
  never ends.
\<close>

theorem fetch_author_feed_rate_limit_retry:
  "((\<forall>k<N. rate_limited (snd (upstream e actor k))) \<and> \<not> rate_limited (snd (upstream e actor N)) \<longrightarrow>
      (\<exists>evs. fetch_author_feed e actor = Some (deliver (snd (upstream e actor N)), evs)
         \<and> sleeps evs = replicate N 5 \<and> feed_requests evs = replicate (Suc N) actor))
   \<and> ((\<forall>k. rate_limited (snd (upstream e actor k))) \<longrightarrow> fetch_author_feed e actor = None)"
  using fetch_attempts_after_retries [of N "upstream e actor" 0 actor]
    fetch_attempts_forever [of "upstream e actor" actor 0]
  by (simp add: fetch_author_feed_def)

theorem fetch_author_feed_rate_limit_retry_witness:
  "(\<exists>evs. fetch_author_feed throttled_env ''A'' = Some (Inr \<lparr>feed = Some [mk_item (Some ''p1'')]\<rparr>, evs)
      \<and> sleeps evs = [5, 5] \<and> feed_requests evs = [''A'', ''A'', ''A''])
   \<and> fetch_author_feed always_throttled_env ''A'' = None"
  using fetch_author_feed_rate_limit_retry [of "Suc (Suc 0)" throttled_env "''A''"]
    fetch_author_feed_rate_limit_retry [of 0 always_throttled_env "''A''"]
  by (simp add: throttled_env_def always_throttled_env_def quiet_env_def ok_reply_def
      rate_limited_def deliver_def raise_for_status_def json_def less_Suc_eq)

subsection \<open>The loops of \<^verbatim>\<open>_collect_posts\<close>\<close>

text \<open>
  A fetch emits requests, warnings and sleeps only. The inner loop appends to the list of
  posts, and what it appends are the posts of the feed whose id is not known. The loop over
  the accounts changes nothing of the state but the trace.
\<close>

lemma emit_simps [simp]:
  "accounts (emit evs s) = accounts s"
  "existing_uuids (emit evs s) = existing_uuids s"
  "table (emit evs s) = table s"
  "trace (emit evs s) = trace s @ evs"
  "emit evs2 (emit evs1 s) = emit (evs1 @ evs2) s"
  "emit [] s = s"
  by (simp_all add: emit_def)

lemma quiet_simps [simp]:
  "quiet []"
  "quiet (evs1 @ evs2) = (quiet evs1 \<and> quiet evs2)"
  "quiet (Log l m # evs) = quiet evs"
  "quiet (Sleep d # evs) = quiet evs"
  "quiet (Feed_Request a t # evs) = quiet evs"
  by (simp_all add: quiet_def)

lemma fetch_attempts_quiet:
  assumes "fetch_attempts replies actor n = Some y"
  shows "quiet (snd y)"
proof (rule fetch_attempts.raw_induct
    [where P = "\<lambda>replies actor n y. quiet (snd y)", OF _ assms])
  fix f :: "(nat \<Rightarrow> real \<times> reply) \<Rightarrow> string \<Rightarrow> nat \<Rightarrow> ((error + feed_body) \<times> event list) option"
    and replies actor n y
  assume IH: "\<And>replies actor n y. f replies actor n = Some y \<Longrightarrow> quiet (snd y)"
    and step: "(let (took, resp) = replies n in
      if \<not> rate_limited resp then Some (deliver resp, [Feed_Request actor took])
      else do {
        (res, evs) \<leftarrow> f replies actor (Suc n);
        Some (res, [Feed_Request actor took, Log WARNING Rate_Limited, Sleep 5] @ evs)
      }) = Some y"
  show "quiet (snd y)"
  proof (cases "rate_limited (snd (replies n))")
    case True
    with step obtain res evs where rec: "f replies actor (Suc n) = Some (res, evs)"
      and y: "y = (res, [Feed_Request actor (fst (replies n)), Log WARNING Rate_Limited, Sleep 5] @ evs)"
      by (auto simp: split_beta split: bind_splits)
    from IH [OF rec] y show ?thesis by simp
  next
    case False
    with step show ?thesis by (auto simp: split_beta)
  qed
qed

lemma fetch_author_feed_quiet: "fetch_author_feed e a = Some (res, evs) \<Longrightarrow> quiet evs"
  using fetch_attempts_quiet [of "upstream e a" a 0 "(res, evs)"]
  by (simp add: fetch_author_feed_def)

lemma collect_feed_acc: "collect_feed K a items posts = posts @ collect_feed K a items []"
proof (induction items arbitrary: posts)
  case Nil
  show ?case by simp
next
  case (Cons item items)
  have step: "collect_feed K a items (posts @ [r]) = posts @ collect_feed K a items [r]" for r
    using Cons.IH [of "posts @ [r]"] Cons.IH [of "[r]"] by simp
  show ?case using Cons.IH [of posts] by (simp add: Let_def step)
qed

lemma collect_feed_new:
  "p \<in> set (collect_feed K a items []) \<Longrightarrow> uuid p \<notin> K \<and> author p = a"
proof (induction items)
  case Nil
  then show ?case by simp
next
  case (Cons item items)
  then show ?case
    by (subst (asm) collect_feed.simps)
      (auto simp: Let_def collect_feed_acc [of K a items "[r]" for r] split: if_splits)
qed


lemma collect_feed_nothing_new:
  "list_all (\<lambda>item. case item_id item of None \<Rightarrow> True | Some u \<Rightarrow> u \<in> K) items \<Longrightarrow>
   collect_feed K a items posts = posts"
  by (induction items) (auto simp: Let_def item_id_def split: if_splits)

lemma collect_accounts_append:
  "collect_accounts e (xs @ ys) posts s =
     (case collect_accounts e xs posts s of
        None \<Rightarrow> None
      | Some (posts1, s1) \<Rightarrow> collect_accounts e ys posts1 s1)"
  by (induction xs arbitrary: posts s) (auto split: option.splits sum.splits prod.splits)

lemma collect_accounts_result:
  "collect_accounts e accts posts s = Some (ps, s') \<Longrightarrow>
   \<exists>new evs. ps = posts @ new \<and> s' = emit evs s \<and> quiet evs
     \<and> (\<forall>p\<in>set new. uuid p \<notin> existing_uuids s \<and> author p \<in> set accts)"
proof (induction accts arbitrary: posts s)
  case Nil
  then show ?case by (auto intro: exI [of _ "[]"])
next
  case (Cons a accts)
  from Cons.prems obtain res evs where fetched: "fetch_author_feed e a = Some (res, evs)"
    by (auto split: option.splits)
  have q: "quiet evs" using fetched by (rule fetch_author_feed_quiet)
  show ?case
  proof (cases res)
    case (Inl err)
    with Cons.prems fetched have
      "collect_accounts e accts posts (emit (evs @ [Log ERROR (Error_Fetching a err)]) s) = Some (ps, s')"
      by simp
    from Cons.IH [OF this] obtain new' evs' where
      r: "ps = posts @ new'" "s' = emit evs' (emit (evs @ [Log ERROR (Error_Fetching a err)]) s)"
        "quiet evs'" "\<forall>p\<in>set new'. uuid p \<notin> existing_uuids s \<and> author p \<in> set accts"
      by auto
    have "s' = emit ((evs @ [Log ERROR (Error_Fetching a err)]) @ evs') s" using r(2) by simp
    moreover have "quiet ((evs @ [Log ERROR (Error_Fetching a err)]) @ evs')" using q r(3) by simp
    moreover have "\<forall>p\<in>set new'. uuid p \<notin> existing_uuids s \<and> author p \<in> set (a # accts)"
      using r(4) by simp
    ultimately show ?thesis using r(1) by blast
  next
    case (Inr body)
    let ?new = "collect_feed (existing_uuids s) a (dict_get (feed body) []) []"
    from Inr Cons.prems fetched have
      "collect_accounts e accts (posts @ ?new) (emit (evs @ [Sleep 5]) s) = Some (ps, s')"
      using collect_feed_acc [of "existing_uuids s" a "dict_get (feed body) []" posts] by simp
    from Cons.IH [OF this] obtain new' evs' where
      r: "ps = (posts @ ?new) @ new'" "s' = emit evs' (emit (evs @ [Sleep 5]) s)" "quiet evs'"
        "\<forall>p\<in>set new'. uuid p \<notin> existing_uuids s \<and> author p \<in> set accts"
      by auto
    have "\<forall>p\<in>set (?new @ new'). uuid p \<notin> existing_uuids s \<and> author p \<in> set (a # accts)"
      using r(4) collect_feed_new [of _ "existing_uuids s" a "dict_get (feed body) []"] by auto
    moreover have "ps = posts @ (?new @ new')" using r(1) by simp
    moreover have "s' = emit ((evs @ [Sleep 5]) @ evs') s" using r(2) by simp
    moreover have "quiet ((evs @ [Sleep 5]) @ evs')" using q r(3) by simp
    ultimately show ?thesis by blast
  qed
qed


lemma collect_accounts_nothing_new:
  "\<forall>a\<in>set accts. nothing_new e (existing_uuids s) a \<Longrightarrow>
   \<exists>evs. collect_accounts e accts posts s = Some (posts, emit evs s) \<and> quiet evs"
proof (induction accts arbitrary: s)
  case Nil
  show ?case by (auto intro: exI [of _ "[]"])
next
  case (Cons a accts)
  from Cons.prems have head: "nothing_new e (existing_uuids s) a"
    and tail: "\<And>t. existing_uuids t = existing_uuids s \<Longrightarrow> \<forall>b\<in>set accts. nothing_new e (existing_uuids t) b"
    by simp_all
  from head obtain res evs where fetched: "fetch_author_feed e a = Some (res, evs)"
    by (auto simp: nothing_new_def split: option.splits)
  have q: "quiet evs" using fetched by (rule fetch_author_feed_quiet)
  show ?case
  proof (cases res)
    case (Inl err)
    let ?t = "emit (evs @ [Log ERROR (Error_Fetching a err)]) s"
    from Cons.IH [OF tail [of ?t]] obtain evs' where
      "collect_accounts e accts posts ?t = Some (posts, emit evs' ?t)" "quiet evs'" by auto
    with fetched Inl q show ?thesis
      by (auto intro!: exI [of _ "(evs @ [Log ERROR (Error_Fetching a err)]) @ evs'"])
  next
    case (Inr body)
    let ?t = "emit (evs @ [Sleep 5]) s"
    have same: "collect_feed (existing_uuids s) a (dict_get (feed body) []) posts = posts"
      using head fetched Inr by (auto simp: nothing_new_def intro: collect_feed_nothing_new)
    from Cons.IH [OF tail [of ?t]] obtain evs' where
      "collect_accounts e accts posts ?t = Some (posts, emit evs' ?t)" "quiet evs'" by auto
    with fetched Inr q same show ?thesis
      by (auto intro!: exI [of _ "(evs @ [Sleep 5]) @ evs'"])
  qed
qed

lemma fetch_attempts_requests:
  assumes "fetch_attempts replies actor n = Some y"
  shows "actor \<in> set (feed_requests (snd y))"
proof (rule fetch_attempts.raw_induct
    [where P = "\<lambda>replies actor n y. actor \<in> set (feed_requests (snd y))", OF _ assms])
  fix f :: "(nat \<Rightarrow> real \<times> reply) \<Rightarrow> string \<Rightarrow> nat \<Rightarrow> ((error + feed_body) \<times> event list) option"
    and replies actor n y
  assume step: "(let (took, resp) = replies n in
      if \<not> rate_limited resp then Some (deliver resp, [Feed_Request actor took])
      else do {
        (res, evs) \<leftarrow> f replies actor (Suc n);
        Some (res, [Feed_Request actor took, Log WARNING Rate_Limited, Sleep 5] @ evs)
      }) = Some y"
  then show "actor \<in> set (feed_requests (snd y))"
    by (cases "rate_limited (snd (replies n))")
      (auto simp: split_beta feed_requests_def split: bind_splits)
qed

lemma feed_requests_simps [simp]:
  "feed_requests [] = []"
  "feed_requests (evs1 @ evs2) = feed_requests evs1 @ feed_requests evs2"
  "feed_requests (Log l m # evs) = feed_requests evs"
  "feed_requests (Sleep d # evs) = feed_requests evs"
  "feed_requests (Feed_Request a t # evs) = a # feed_requests evs"
  "feed_requests (Meta_Request url t # evs) = feed_requests evs"
  "feed_requests (To_Datetime col # evs) = feed_requests evs"
  "feed_requests (To_Sql rows # evs) = feed_requests evs"
  by (simp_all add: feed_requests_def)

lemma collect_accounts_requests:
  "\<forall>b\<in>set accts. fetch_author_feed e b \<noteq> None \<Longrightarrow>
   \<exists>ps evs. collect_accounts e accts posts s = Some (ps, emit evs s)
     \<and> set accts \<subseteq> set (feed_requests evs)"
proof (induction accts arbitrary: posts s)
  case Nil
  show ?case by (auto intro: exI [of _ "[]"])
next
  case (Cons a accts)
  from Cons.prems obtain res evs where fetched: "fetch_author_feed e a = Some (res, evs)"
    by auto
  have req: "a \<in> set (feed_requests evs)"
    using fetch_attempts_requests [of "upstream e a" a 0 "(res, evs)"] fetched
    by (simp add: fetch_author_feed_def)
  from Cons.prems have tail: "\<forall>b\<in>set accts. fetch_author_feed e b \<noteq> None" by simp
  show ?case
  proof (cases res)
    case (Inl err)
    let ?evs = "evs @ [Log ERROR (Error_Fetching a err)]"
    from Cons.IH [OF tail, of posts "emit ?evs s"] obtain ps evs' where
      r: "collect_accounts e accts posts (emit ?evs s) = Some (ps, emit evs' (emit ?evs s))"
        "set accts \<subseteq> set (feed_requests evs')" by blast
    have "collect_accounts e (a # accts) posts s = Some (ps, emit (?evs @ evs') s)"
      using fetched Inl r(1) by simp
    moreover have "set (a # accts) \<subseteq> set (feed_requests (?evs @ evs'))"
      using req r(2) by auto
    ultimately show ?thesis by blast
  next
    case (Inr body)
    let ?evs = "evs @ [Sleep 5]"
    let ?posts = "collect_feed (existing_uuids s) a (dict_get (feed body) []) posts"
    from Cons.IH [OF tail, of ?posts "emit ?evs s"] obtain ps evs' where
      r: "collect_accounts e accts ?posts (emit ?evs s) = Some (ps, emit evs' (emit ?evs s))"
        "set accts \<subseteq> set (feed_requests evs')" by blast
    have "collect_accounts e (a # accts) posts s = Some (ps, emit (?evs @ evs') s)"
      using fetched Inr r(1) by simp
    moreover have "set (a # accts) \<subseteq> set (feed_requests (?evs @ evs'))"
      using req r(2) by auto
    ultimately show ?thesis by blast
  qed
qed

text \<open>
  What the loops collect: the inner loop appends, for each post of the feed with an id that
  is not known, in feed order, a row with this id and with the account as its author; the
  loop over the accounts appends these rows account by account.
\<close>

lemma dropna_Nil [simp]: "dropna [] = []"
  by (simp add: dropna_def)

lemma dropna_Cons [simp]:
  "dropna (Some x # xs) = x # dropna xs"
  "dropna (None # xs) = dropna xs"
  by (simp_all add: dropna_def)

lemma collect_feed_uuids:
  "map uuid (collect_feed K a items posts) =
     map uuid posts @ filter (\<lambda>u. u \<notin> K) (dropna (map item_id items))"
  by (induction items arbitrary: posts) (simp_all add: Let_def item_id_def)

lemma collect_feed_authors:
  "map author (collect_feed K a items posts) =
     map author posts @ replicate (length (filter (\<lambda>u. u \<notin> K) (dropna (map item_id items)))) a"
  by (induction items arbitrary: posts)
    (simp_all add: Let_def item_id_def replicate_app_Cons_same)

lemma collect_accounts_collected:
  "collect_accounts e accts posts s = Some (ps, s') \<Longrightarrow>
   map uuid ps = map uuid posts @ concat (map (feed_ids e (existing_uuids s)) accts)
   \<and> map author ps = map author posts
       @ concat (map (\<lambda>b. replicate (length (feed_ids e (existing_uuids s) b)) b) accts)"
proof (induction accts arbitrary: posts s)
  case Nil
  then show ?case by simp
next
  case (Cons a accts)
  from Cons.prems obtain res evs where fetched: "fetch_author_feed e a = Some (res, evs)"
    by (auto split: option.splits)
  show ?case
  proof (cases res)
    case (Inl err)
    with Cons.prems fetched have
      "collect_accounts e accts posts (emit (evs @ [Log ERROR (Error_Fetching a err)]) s) = Some (ps, s')"
      by simp
    from Cons.IH [OF this] fetched Inl show ?thesis by (simp add: feed_ids_def)
  next
    case (Inr body)
    let ?posts = "collect_feed (existing_uuids s) a (dict_get (feed body) []) posts"
    from Inr Cons.prems fetched have
      "collect_accounts e accts ?posts (emit (evs @ [Sleep 5]) s) = Some (ps, s')"
      by simp
    from Cons.IH [OF this] fetched Inr show ?thesis
      by (simp add: feed_ids_def collect_feed_uuids collect_feed_authors)
  qed
qed

text \<open>
  C3. When the fetch of an account \<open>a\<close> raises, the loop over the accounts logs the error
  and goes on: run on \<open>before @ a # after\<close>, the loop is, after \<open>a\<close>, the loop over the
  accounts \<open>after\<close>, in their order, started with the posts collected so far and the error
  logged. When no later fetch retries forever, the loop ends, every account of \<open>after\<close>
  has been requested after the error was logged, and the posts of the accounts of
  \<open>after\<close> are collected: the rows appended after \<open>a\<close> are, account by account in the
  configured order, one row for each post of the account's feed with an id that is not
  known, with this id and this account as author.
\<close>

theorem fetch_error_does_not_abort_account_loop:
  assumes "fetch_author_feed e a = Some (Inl err, evs)"
    and "collect_accounts e before posts s = Some (posts1, s1)"
  shows "collect_accounts e (before @ a # after) posts s =
           collect_accounts e after posts1 (emit (evs @ [Log ERROR (Error_Fetching a err)]) s1)
       \<and> ((\<forall>b\<in>set after. fetch_author_feed e b \<noteq> None) \<longrightarrow>
            (\<exists>new evs2. collect_accounts e (before @ a # after) posts s =
                 Some (posts1 @ new, emit (evs @ [Log ERROR (Error_Fetching a err)] @ evs2) s1)
               \<and> set after \<subseteq> set (feed_requests evs2)
               \<and> map uuid new = concat (map (feed_ids e (existing_uuids s1)) after)
               \<and> map author new
                   = concat (map (\<lambda>b. replicate (length (feed_ids e (existing_uuids s1) b)) b) after)))"
proof -
  let ?s = "emit (evs @ [Log ERROR (Error_Fetching a err)]) s1"
  have eq: "collect_accounts e (before @ a # after) posts s = collect_accounts e after posts1 ?s"
    using assms by (simp add: collect_accounts_append)
  have "\<exists>new evs2. collect_accounts e (before @ a # after) posts s =
            Some (posts1 @ new, emit (evs @ [Log ERROR (Error_Fetching a err)] @ evs2) s1)
          \<and> set after \<subseteq> set (feed_requests evs2)
          \<and> map uuid new = concat (map (feed_ids e (existing_uuids s1)) after)
          \<and> map author new
              = concat (map (\<lambda>b. replicate (length (feed_ids e (existing_uuids s1) b)) b) after)"
    if "\<forall>b\<in>set after. fetch_author_feed e b \<noteq> None"
  proof -
    from collect_accounts_requests [OF that, of posts1 ?s] obtain ps evs2 where
      c: "collect_accounts e after posts1 ?s = Some (ps, emit evs2 ?s)"
      and req: "set after \<subseteq> set (feed_requests evs2)" by blast
    from collect_accounts_result [OF c] obtain new where ps: "ps = posts1 @ new" by blast
    from collect_accounts_collected [OF c] ps have
      "map uuid new = concat (map (feed_ids e (existing_uuids s1)) after)"
      "map author new
         = concat (map (\<lambda>b. replicate (length (feed_ids e (existing_uuids s1) b)) b) after)"
      by simp_all
    moreover have "collect_accounts e (before @ a # after) posts s =
            Some (posts1 @ new, emit (evs @ [Log ERROR (Error_Fetching a err)] @ evs2) s1)"
      using eq c ps by simp
    ultimately show ?thesis using req by blast
  qed
  with eq show ?thesis by blast
qed

theorem fetch_error_does_not_abort_account_loop_witness:
  "fetch_author_feed flaky_env ''A'' = Some (Inl Transport_Error, [Feed_Request ''A'' 0])
   \<and> collect_accounts flaky_env [] [] empty_store = Some ([], empty_store)
   \<and> fetch_author_feed flaky_env ''B'' \<noteq> None
   \<and> (\<exists>new evs2. collect_accounts flaky_env ([] @ ''A'' # [''B'']) [] empty_store =
          Some ([] @ new,
                emit ([Feed_Request ''A'' 0] @ [Log ERROR (Error_Fetching ''A'' Transport_Error)] @ evs2)
                  empty_store)
        \<and> set [''B''] \<subseteq> set (feed_requests evs2)
        \<and> map uuid new = [''p4'']
        \<and> map author new = [''B''])"
proof -
  have h1: "fetch_author_feed flaky_env ''A'' = Some (Inl Transport_Error, [Feed_Request ''A'' 0])"
    by (simp add: fetch_author_feed_def flaky_env_def quiet_env_def fetch_attempts_done
        rate_limited_def deliver_def)
  have h2: "collect_accounts flaky_env [] [] empty_store = Some ([], empty_store)"
    by simp
  have h3: "fetch_author_feed flaky_env ''B'' \<noteq> None"
    by (simp add: fetch_author_feed_def flaky_env_def quiet_env_def fetch_attempts_done
        rate_limited_def ok_reply_def)
  then have h4: "\<forall>b\<in>set [''B'']. fetch_author_feed flaky_env b \<noteq> None"
    by simp
  have ids: "feed_ids flaky_env (existing_uuids empty_store) ''B'' = [''p4'']"
    by (simp add: feed_ids_def fetch_author_feed_def flaky_env_def quiet_env_def
        fetch_attempts_done rate_limited_def ok_reply_def deliver_def raise_for_status_def
        json_def dict_get_def item_id_def mk_item_def empty_store_def)
  from fetch_error_does_not_abort_account_loop [OF h1 h2, of "[''B'']"] h4
  obtain new evs2 where
    "collect_accounts flaky_env ([] @ ''A'' # [''B'']) [] empty_store =
          Some ([] @ new,
                emit ([Feed_Request ''A'' 0] @ [Log ERROR (Error_Fetching ''A'' Transport_Error)] @ evs2)
                  empty_store)"
    "set [''B''] \<subseteq> set (feed_requests evs2)"
    "map uuid new = concat (map (feed_ids flaky_env (existing_uuids empty_store)) [''B''])"
    "map author new = concat (map (\<lambda>b. replicate
        (length (feed_ids flaky_env (existing_uuids empty_store) b)) b) [''B''])"
    by blast
  with ids have "\<exists>new evs2. collect_accounts flaky_env ([] @ ''A'' # [''B'']) [] empty_store =
          Some ([] @ new,
                emit ([Feed_Request ''A'' 0] @ [Log ERROR (Error_Fetching ''A'' Transport_Error)] @ evs2)
                  empty_store)
        \<and> set [''B''] \<subseteq> set (feed_requests evs2)
        \<and> map uuid new = [''p4'']
        \<and> map author new = [''B'']"
    by (intro exI [of _ new] exI [of _ evs2]) simp
  with h1 h2 h3 show ?thesis by blast
qed

subsection \<open>\<^verbatim>\<open>drop_duplicates\<close>\<close>

text \<open>
  The rows kept are rows of the frame, with the same ids, each id once, and each row is the
  first of its id.
\<close>

lemma keep_first_subset: "set (keep_first seen ps) \<subseteq> set ps"
  by (induction ps arbitrary: seen) auto

lemma keep_first_uuids: "uuid ` set (keep_first seen ps) = uuid ` set ps - seen"
  by (induction ps arbitrary: seen) auto

lemma keep_first_distinct: "distinct (map uuid (keep_first seen ps))"
proof (induction ps arbitrary: seen)
  case Nil
  show ?case by simp
next
  case (Cons p ps)
  have "uuid p \<notin> uuid ` set (keep_first (insert (uuid p) seen) ps)"
    by (simp add: keep_first_uuids)
  with Cons.IH show ?case by simp
qed

lemma keep_first_first:
  "r \<in> set (keep_first seen ps) \<Longrightarrow> find (\<lambda>q. uuid q = uuid r) ps = Some r"
proof (induction ps arbitrary: seen)
  case Nil
  then show ?case by simp
next
  case (Cons p ps)
  show ?case
  proof (cases "uuid p \<in> seen")
    case True
    with Cons.prems have r: "r \<in> set (keep_first seen ps)" by simp
    then have "uuid r \<in> uuid ` set ps - seen" using keep_first_uuids [of seen ps] by blast
    with True have "uuid p \<noteq> uuid r" by auto
    with Cons.IH [OF r] show ?thesis by simp
  next
    case False
    show ?thesis
    proof (cases "r = p")
      case True
      then show ?thesis by simp
    next
      case ne: False
      with False Cons.prems have r: "r \<in> set (keep_first (insert (uuid p) seen) ps)" by simp
      then have "uuid r \<in> uuid ` set ps - insert (uuid p) seen"
        using keep_first_uuids [of "insert (uuid p) seen" ps] by blast
      then have "uuid p \<noteq> uuid r" by auto
      with Cons.IH [OF r] show ?thesis by simp
    qed
  qed
qed

lemma drop_duplicates_subset: "set (drop_duplicates ps) \<subseteq> set ps"
  by (simp add: drop_duplicates_def keep_first_subset)

lemma drop_duplicates_uuids: "uuid ` set (drop_duplicates ps) = uuid ` set ps"
  by (simp add: drop_duplicates_def keep_first_uuids)

lemma drop_duplicates_distinct: "distinct (map uuid (drop_duplicates ps))"
  by (simp add: drop_duplicates_def keep_first_distinct)

lemma drop_duplicates_first:
  "r \<in> set (drop_duplicates ps) \<Longrightarrow> find (\<lambda>q. uuid q = uuid r) ps = Some r"
  by (simp add: drop_duplicates_def keep_first_first)

lemma drop_duplicates_Nil [simp]: "drop_duplicates [] = []"
  by (simp add: drop_duplicates_def)

lemma drop_duplicates_eq_Nil: "drop_duplicates ps = [] \<longleftrightarrow> ps = []"
  by (cases ps) (simp_all add: drop_duplicates_def)

subsection \<open>One run\<close>

lemma batches_simps [simp]:
  "batches [] = []"
  "batches (evs1 @ evs2) = batches evs1 @ batches evs2"
  "batches (Log l m # evs) = batches evs"
  "batches (Sleep d # evs) = batches evs"
  "batches (Feed_Request a t # evs) = batches evs"
  "batches (Meta_Request url t # evs) = batches evs"
  "batches (To_Datetime col # evs) = batches evs"
  "batches (To_Sql rows # evs) = rows # batches evs"
  by (simp_all add: batches_def)

lemma quiet_batches: "quiet evs \<Longrightarrow> batches evs = []"
proof (induction evs)
  case Nil
  show ?case by simp
next
  case (Cons ev evs)
  then show ?case by (cases ev) (simp_all add: quiet_def)
qed

lemma meta_requests_batches [simp]:
  "batches (concat (map (\<lambda>p. snd (fetch_metadata e (external_url p))) df)) = []"
  by (induction df) (simp_all add: fetch_metadata_def split_beta)

text \<open>
  What a run does, given what the loop over the accounts has collected: since every post
  collected has an id outside \<^verbatim>\<open>existing_uuids\<close>, the second filter of \<^verbatim>\<open>run\<close> keeps
  every row.
\<close>

lemma run_collected:
  assumes "collect_accounts e (accounts s) [] (s\<lparr>existing_uuids := get_existing_uuids s\<rparr>) = Some (ps, sc)"
  shows "run e s =
     Some (if drop_duplicates ps = [] then (Inr (), emit [Log INFO No_Posts_Collected] sc)
           else append_dataframe e (map (enrich_row e) (drop_duplicates ps))
                  (emit (Log INFO (Found_New (length (drop_duplicates ps)))
                         # To_Datetime (map timestamp (drop_duplicates ps))
                         # concat (map (\<lambda>p. snd (fetch_metadata e (external_url p))) (drop_duplicates ps)))
                     sc))"
proof -
  let ?s = "s\<lparr>existing_uuids := get_existing_uuids s\<rparr>"
  from collect_accounts_result [OF assms] obtain evs where
    sc: "sc = emit evs ?s" and new: "\<forall>p\<in>set ps. uuid p \<notin> existing_uuids ?s"
    by auto
  have known: "existing_uuids sc = existing_uuids ?s" using sc by simp
  have "\<forall>p\<in>set (drop_duplicates ps). uuid p \<notin> existing_uuids sc"
    using new known drop_duplicates_subset [of ps] by auto
  then have same: "filter (\<lambda>p. uuid p \<notin> existing_uuids sc) (drop_duplicates ps) = drop_duplicates ps"
    by (simp add: filter_id_conv)
  have cp: "collect_posts e ?s = Some (drop_duplicates ps, sc)"
    using assms by (simp add: collect_posts_def)
  show ?thesis
    by (simp add: run_def cp same enrich_dataframe_def Let_def)
qed

lemma run_Some_collected:
  assumes "run e s = Some (r, s1)"
  shows "\<exists>ps sc. collect_accounts e (accounts s) [] (s\<lparr>existing_uuids := get_existing_uuids s\<rparr>) = Some (ps, sc)"
  using assms by (auto simp: run_def collect_posts_def Let_def split: option.splits)


lemma dropna_append [simp]: "dropna (xs @ ys) = dropna xs @ dropna ys"
  by (simp add: dropna_def)

lemma enrich_row_uuid [simp]: "db_uuid (enrich_row e p) = Some (uuid p)"
  by (simp add: enrich_row_def split_beta)

lemma enrich_row_author [simp]: "db_author (enrich_row e p) = author p"
  by (simp add: enrich_row_def split_beta)

lemma dropna_enriched [simp]: "dropna (map db_uuid (map (enrich_row e) df)) = map uuid df"
  by (induction df) simp_all

text \<open>The outcome, the table and the trace of a run that returns or raises.\<close>

lemma append_dataframe_result:
  assumes "append_dataframe e df s = (r, s1)"
  shows "r = (if insert_fails e then Inl Storage_Error else Inr ())"
    and "trace s1 = trace s @ To_Sql df #
           (if insert_fails e then [Log ERROR DB_Insert_Failed] else [Log INFO (Inserted (length df))])"
    and "table s1 = (if insert_fails e then table s else Some (dict_get (table s) [] @ df))"
    and "accounts s1 = accounts s"
  using assms by (auto simp: append_dataframe_def Let_def emit_def split: if_splits)

lemma run_summary:
  assumes "run e s = Some (r, s1)"
  shows "\<exists>ps evs.
      collect_accounts e (accounts s) [] (s\<lparr>existing_uuids := get_existing_uuids s\<rparr>)
        = Some (ps, emit evs (s\<lparr>existing_uuids := get_existing_uuids s\<rparr>))
    \<and> quiet evs \<and> (\<forall>p\<in>set ps. uuid p \<notin> get_existing_uuids s) \<and> accounts s1 = accounts s
    \<and> (if ps = [] then
          r = Inr () \<and> table s1 = table s \<and> trace s1 = trace s @ evs @ [Log INFO No_Posts_Collected]
        else
          r = (if insert_fails e then Inl Storage_Error else Inr ())
          \<and> table s1 = (if insert_fails e then table s
                        else Some (dict_get (table s) [] @ map (enrich_row e) (drop_duplicates ps)))
          \<and> trace s1 = trace s @ evs
              @ Log INFO (Found_New (length (drop_duplicates ps)))
              # To_Datetime (map timestamp (drop_duplicates ps))
              # concat (map (\<lambda>p. snd (fetch_metadata e (external_url p))) (drop_duplicates ps))
              @ To_Sql (map (enrich_row e) (drop_duplicates ps))
              # (if insert_fails e then [Log ERROR DB_Insert_Failed]
                 else [Log INFO (Inserted (length (drop_duplicates ps)))]))"
proof -
  let ?s = "s\<lparr>existing_uuids := get_existing_uuids s\<rparr>"
  from run_Some_collected [OF assms] obtain ps sc where
    c: "collect_accounts e (accounts s) [] ?s = Some (ps, sc)" by blast
  from collect_accounts_result [OF c] obtain evs where
    sc: "sc = emit evs ?s" and q: "quiet evs" and new: "\<forall>p\<in>set ps. uuid p \<notin> get_existing_uuids s"
    by auto
  note run = run_collected [OF c]
  show ?thesis
  proof (cases "ps = []")
    case True
    with run assms sc have "r = Inr ()" "s1 = emit [Log INFO No_Posts_Collected] (emit evs ?s)"
      by simp_all
    with True c sc q new show ?thesis by (auto intro!: exI [of _ ps] exI [of _ evs])
  next
    case False
    let ?df = "drop_duplicates ps"
    let ?sE = "emit (Log INFO (Found_New (length ?df)) # To_Datetime (map timestamp ?df)
                # concat (map (\<lambda>p. snd (fetch_metadata e (external_url p))) ?df)) sc"
    from False have "?df \<noteq> []" by (simp add: drop_duplicates_eq_Nil)
    with run assms have a: "append_dataframe e (map (enrich_row e) ?df) ?sE = (r, s1)" by simp
    note res = append_dataframe_result [OF a]
    have "trace ?sE = trace s @ evs @ Log INFO (Found_New (length ?df)) # To_Datetime (map timestamp ?df)
                # concat (map (\<lambda>p. snd (fetch_metadata e (external_url p))) ?df)"
      using sc by simp
    moreover have "table ?sE = table s" "accounts ?sE = accounts s" using sc by simp_all
    ultimately have "r = (if insert_fails e then Inl Storage_Error else Inr ())"
      "table s1 = (if insert_fails e then table s
                        else Some (dict_get (table s) [] @ map (enrich_row e) ?df))"
      "trace s1 = trace s @ evs
              @ Log INFO (Found_New (length ?df))
              # To_Datetime (map timestamp ?df)
              # concat (map (\<lambda>p. snd (fetch_metadata e (external_url p))) ?df)
              @ To_Sql (map (enrich_row e) ?df)
              # (if insert_fails e then [Log ERROR DB_Insert_Failed]
                 else [Log INFO (Inserted (length ?df))])"
      "accounts s1 = accounts s"
      using res by simp_all
    with False c sc q new show ?thesis by (intro exI [of _ ps] exI [of _ evs]) simp
  qed
qed

text \<open>
  C5. When the collection returned by \<^verbatim>\<open>_collect_posts\<close> is empty, \<^verbatim>\<open>run\<close> returns
  normally after logging that no posts were collected: the table is unchanged, and the
  trace of the run holds no timestamp parsing, no metadata request and no insert. The
  collection is empty in particular when every account brings nothing new, that is, when
  its fetch raises or every post of its feed is already stored.
\<close>

theorem empty_collection_short_circuit:
  "(collect_posts e (s\<lparr>existing_uuids := get_existing_uuids s\<rparr>) = Some ([], sc) \<longrightarrow>
      run e s = Some (Inr (), emit [Log INFO No_Posts_Collected] sc)
      \<and> table sc = table s
      \<and> (\<exists>evs. trace sc = trace s @ evs \<and> quiet evs))
   \<and> ((\<forall>a\<in>set (accounts s). nothing_new e (get_existing_uuids s) a) \<longrightarrow>
      (\<exists>sc. collect_posts e (s\<lparr>existing_uuids := get_existing_uuids s\<rparr>) = Some ([], sc)))"
proof -
  let ?s = "s\<lparr>existing_uuids := get_existing_uuids s\<rparr>"
  have one: "run e s = Some (Inr (), emit [Log INFO No_Posts_Collected] sc)
      \<and> table sc = table s \<and> (\<exists>evs. trace sc = trace s @ evs \<and> quiet evs)"
    if "collect_posts e ?s = Some ([], sc)"
  proof -
    from that obtain ps where c: "collect_accounts e (accounts s) [] ?s = Some (ps, sc)"
      and d: "drop_duplicates ps = []"
      by (auto simp: collect_posts_def split: option.splits)
    from collect_accounts_result [OF c] obtain evs where "sc = emit evs ?s" "quiet evs"
      by auto
    then have "table sc = table s" "trace sc = trace s @ evs" "quiet evs" by simp_all
    moreover have "run e s = Some (Inr (), emit [Log INFO No_Posts_Collected] sc)"
      using run_collected [OF c] d by simp
    ultimately show ?thesis by blast
  qed
  have two: "\<exists>sc. collect_posts e ?s = Some ([], sc)"
    if "\<forall>a\<in>set (accounts s). nothing_new e (get_existing_uuids s) a"
  proof -
    from that have "\<forall>a\<in>set (accounts s). nothing_new e (existing_uuids ?s) a" by simp
    from collect_accounts_nothing_new [OF this, of "[]"] obtain evs where
      "collect_accounts e (accounts s) [] ?s = Some ([], emit evs ?s)" by blast
    then show ?thesis by (simp add: collect_posts_def)
  qed
  from one two show ?thesis by blast
qed

theorem empty_collection_short_circuit_witness:
  "\<exists>sc. collect_posts flaky_env (p4_store\<lparr>existing_uuids := get_existing_uuids p4_store\<rparr>) = Some ([], sc)
     \<and> run flaky_env p4_store = Some (Inr (), emit [Log INFO No_Posts_Collected] sc)
     \<and> table sc = table p4_store
     \<and> (\<exists>evs. trace sc = trace p4_store @ evs \<and> quiet evs)"
proof -
  have a: "nothing_new flaky_env (get_existing_uuids p4_store) ''A''"
    by (simp add: nothing_new_def fetch_author_feed_def flaky_env_def quiet_env_def
        fetch_attempts_done rate_limited_def deliver_def)
  have b: "nothing_new flaky_env (get_existing_uuids p4_store) ''B''"
    by (simp add: nothing_new_def fetch_author_feed_def flaky_env_def quiet_env_def
        fetch_attempts_done rate_limited_def deliver_def ok_reply_def raise_for_status_def
        json_def dict_get_def item_id_def mk_item_def get_existing_uuids_def p4_store_def
        p4_row_def)
  have all: "\<forall>a\<in>set (accounts p4_store). nothing_new flaky_env (get_existing_uuids p4_store) a"
    using a b by (simp add: p4_store_def)
  from empty_collection_short_circuit [of flaky_env p4_store] all obtain sc where
    c: "collect_posts flaky_env (p4_store\<lparr>existing_uuids := get_existing_uuids p4_store\<rparr>) = Some ([], sc)"
    by blast
  with empty_collection_short_circuit [of flaky_env p4_store sc] show ?thesis by blast
qed


lemma distinct_map_Some: "distinct (map Some xs) = distinct xs"
  by (simp add: distinct_map)




lemma run_batches:
  assumes "run e s = Some (r, s1)"
  shows "\<exists>evs. trace s1 = trace s @ evs
     \<and> (batches evs = []
        \<or> (\<exists>ps. ps \<noteq> [] \<and> (\<forall>p\<in>set ps. uuid p \<notin> get_existing_uuids s)
             \<and> batches evs = [map (enrich_row e) (drop_duplicates ps)]))"
proof -
  from run_summary [OF assms] obtain ps evs where
    q: "quiet evs" and new: "\<forall>p\<in>set ps. uuid p \<notin> get_existing_uuids s"
    and tr: "if ps = [] then
          r = Inr () \<and> table s1 = table s \<and> trace s1 = trace s @ evs @ [Log INFO No_Posts_Collected]
        else
          r = (if insert_fails e then Inl Storage_Error else Inr ())
          \<and> table s1 = (if insert_fails e then table s
                        else Some (dict_get (table s) [] @ map (enrich_row e) (drop_duplicates ps)))
          \<and> trace s1 = trace s @ evs
              @ Log INFO (Found_New (length (drop_duplicates ps)))
              # To_Datetime (map timestamp (drop_duplicates ps))
              # concat (map (\<lambda>p. snd (fetch_metadata e (external_url p))) (drop_duplicates ps))
              @ To_Sql (map (enrich_row e) (drop_duplicates ps))
              # (if insert_fails e then [Log ERROR DB_Insert_Failed]
                 else [Log INFO (Inserted (length (drop_duplicates ps)))])"
    by blast
  have empty: "trace s1 = trace s @ evs @ [Log INFO No_Posts_Collected]" if "ps = []"
    using tr that by simp
  have full: "trace s1 = trace s @ evs
              @ Log INFO (Found_New (length (drop_duplicates ps)))
              # To_Datetime (map timestamp (drop_duplicates ps))
              # concat (map (\<lambda>p. snd (fetch_metadata e (external_url p))) (drop_duplicates ps))
              @ To_Sql (map (enrich_row e) (drop_duplicates ps))
              # (if insert_fails e then [Log ERROR DB_Insert_Failed]
                 else [Log INFO (Inserted (length (drop_duplicates ps)))])" if "ps \<noteq> []"
    using tr that by simp
  show ?thesis
  proof (cases "ps = []")
    case True
    have "batches (evs @ [Log INFO No_Posts_Collected]) = []"
      using quiet_batches [OF q] by simp
    with empty [OF True] show ?thesis by blast
  next
    case False
    let ?evs = "evs @ Log INFO (Found_New (length (drop_duplicates ps)))
              # To_Datetime (map timestamp (drop_duplicates ps))
              # concat (map (\<lambda>p. snd (fetch_metadata e (external_url p))) (drop_duplicates ps))
              @ To_Sql (map (enrich_row e) (drop_duplicates ps))
              # (if insert_fails e then [Log ERROR DB_Insert_Failed]
                 else [Log INFO (Inserted (length (drop_duplicates ps)))])"
    have "batches ?evs = [map (enrich_row e) (drop_duplicates ps)]"
      using quiet_batches [OF q] by simp
    moreover have "trace s1 = trace s @ ?evs" using full [OF False] by simp
    ultimately show ?thesis using False new by blast
  qed
qed

lemma distinct_map_filter_le_1:
  "distinct (map f xs) \<Longrightarrow> length (filter (\<lambda>x. f x = v) xs) \<le> 1"
proof (induction xs)
  case Nil
  show ?case by simp
next
  case (Cons x xs)
  show ?case
  proof (cases "f x = v")
    case True
    with Cons.prems have "\<forall>y\<in>set xs. f y \<noteq> v" by (force simp: image_iff)
    then have "filter (\<lambda>x. f x = v) xs = []" by (simp add: filter_empty_conv)
    with True show ?thesis by simp
  next
    case False
    with Cons show ?thesis by simp
  qed
qed

text \<open>
  C1, as the code has it. A post whose \<^verbatim>\<open>uri\<close> is empty or missing gets the id \<open>''''\<close>
  and is filtered like any other id: in the batch that a run gives to \<^verbatim>\<open>to_sql\<close>, at most
  one row has the empty id, and no row has it when the empty id is already stored.
\<close>

theorem empty_id_only_in_batch_when_not_stored:
  assumes "run e s = Some (r, s1)"
  shows "\<exists>evs. trace s1 = trace s @ evs
     \<and> (\<forall>rows\<in>set (batches evs).
           length (filter (\<lambda>row. db_uuid row = Some '''') rows) \<le> 1
         \<and> ('''' \<in> get_existing_uuids s \<longrightarrow> (\<forall>row\<in>set rows. db_uuid row \<noteq> Some '''')))"
proof -
  from run_batches [OF assms] obtain evs where t: "trace s1 = trace s @ evs"
    and b: "batches evs = []
        \<or> (\<exists>ps. ps \<noteq> [] \<and> (\<forall>p\<in>set ps. uuid p \<notin> get_existing_uuids s)
             \<and> batches evs = [map (enrich_row e) (drop_duplicates ps)])"
    by blast
  have "length (filter (\<lambda>row. db_uuid row = Some '''') rows) \<le> 1
         \<and> ('''' \<in> get_existing_uuids s \<longrightarrow> (\<forall>row\<in>set rows. db_uuid row \<noteq> Some ''''))"
    if "rows \<in> set (batches evs)" for rows
  proof -
    from that b obtain ps where new: "\<forall>p\<in>set ps. uuid p \<notin> get_existing_uuids s"
      and rows: "rows = map (enrich_row e) (drop_duplicates ps)"
      by auto
    have "map db_uuid rows = map Some (map uuid (drop_duplicates ps))"
      by (simp add: rows)
    then have "distinct (map db_uuid rows)"
      using drop_duplicates_distinct [of ps] by (simp only: distinct_map_Some)
    then have "length (filter (\<lambda>row. db_uuid row = Some '''') rows) \<le> 1"
      by (rule distinct_map_filter_le_1)
    moreover have "\<forall>row\<in>set rows. db_uuid row \<noteq> Some ''''" if "'''' \<in> get_existing_uuids s"
    proof
      fix row assume "row \<in> set rows"
      then obtain p where p: "p \<in> set (drop_duplicates ps)" and row: "row = enrich_row e p"
        by (auto simp: rows)
      from p new drop_duplicates_subset [of ps] have "uuid p \<notin> get_existing_uuids s" by blast
      with that have "uuid p \<noteq> ''''" by auto
      then show "db_uuid row \<noteq> Some ''''" by (simp add: row)
    qed
    ultimately show ?thesis by blast
  qed
  with t show ?thesis by blast
qed

lemma run_missing_id:
  "\<exists>s1. run missing_id_env a_store = Some (Inr (), s1)
     \<and> map (map db_uuid) (batches (trace s1)) = [[Some '''']]"
  by (simp add: run_def collect_posts_def a_store_def empty_store_def get_existing_uuids_def
      dropna_def fetch_author_feed_def missing_id_env_def quiet_env_def fetch_attempts_done
      ok_reply_def rate_limited_def deliver_def raise_for_status_def json_def mk_item_def
      dict_get_def emit_def drop_duplicates_def enrich_dataframe_def append_dataframe_def
      enrich_row_def fetch_metadata_def page_metadata_def empty_post_def Let_def)

theorem empty_id_only_in_batch_when_not_stored_witness:
  "\<exists>s1 evs. run missing_id_env a_store = Some (Inr (), s1)
     \<and> trace s1 = trace a_store @ evs
     \<and> map (map db_uuid) (batches evs) = [[Some '''']]
     \<and> (\<forall>rows\<in>set (batches evs).
           length (filter (\<lambda>row. db_uuid row = Some '''') rows) \<le> 1
         \<and> ('''' \<in> get_existing_uuids a_store \<longrightarrow> (\<forall>row\<in>set rows. db_uuid row \<noteq> Some '''')))"
proof -
  from run_missing_id obtain s1 where r: "run missing_id_env a_store = Some (Inr (), s1)"
    and b: "map (map db_uuid) (batches (trace s1)) = [[Some '''']]"
    by auto
  from empty_id_only_in_batch_when_not_stored [OF r] obtain evs where
    t: "trace s1 = trace a_store @ evs"
    and p: "\<forall>rows\<in>set (batches evs).
           length (filter (\<lambda>row. db_uuid row = Some '''') rows) \<le> 1
         \<and> ('''' \<in> get_existing_uuids a_store \<longrightarrow> (\<forall>row\<in>set rows. db_uuid row \<noteq> Some ''''))"
    by blast
  have "trace a_store = []" by (simp add: a_store_def empty_store_def)
  with t b have m: "map (map db_uuid) (batches evs) = [[Some '''']]" by simp
  show ?thesis
    by (rule exI [of _ s1], rule exI [of _ evs]) (use r t p m in simp)
qed

text \<open>
  C1, as the claim states it, fails: with an empty store, a feed that holds a post with an
  empty \<^verbatim>\<open>uri\<close> and a post with no \<^verbatim>\<open>uri\<close> key makes the run give \<^verbatim>\<open>to_sql\<close> a batch
  with a row whose id is the empty string.
\<close>

theorem missing_id_post_is_handed_to_append:
  "upstream missing_id_env ''A'' 0 = ok_reply [mk_item (Some ''''), mk_item None]
   \<and> uri (dict_get (item_post (mk_item None)) empty_post) = None
   \<and> (\<exists>s1. run missing_id_env a_store = Some (Inr (), s1)
         \<and> map (map db_uuid) (batches (trace s1)) = [[Some '''']])"
  using run_missing_id by (simp add: missing_id_env_def mk_item_def dict_get_def)

lemma run_scenario:
  "\<exists>s1. run scenario_env ab_store = Some (Inr (), s1)
     \<and> batches (trace s1) = [dict_get (table s1) []]
     \<and> map db_uuid (dict_get (table s1) []) = [Some ''p1'', Some ''p2'', Some ''p3'', Some ''p4'']
     \<and> map db_author (dict_get (table s1) []) = [''A'', ''A'', ''A'', ''B'']"
  by (simp add: run_def collect_posts_def ab_store_def empty_store_def get_existing_uuids_def
      dropna_def fetch_author_feed_def scenario_env_def quiet_env_def fetch_attempts_done
      ok_reply_def rate_limited_def deliver_def raise_for_status_def json_def mk_item_def
      dict_get_def emit_def drop_duplicates_def enrich_dataframe_def append_dataframe_def
      enrich_row_def fetch_metadata_def page_metadata_def Let_def)

lemma collect_posts_scenario:
  "\<exists>df s1. collect_posts scenario_env ab_store = Some (df, s1)
     \<and> map uuid df = [''p1'', ''p2'', ''p3'', ''p4'']
     \<and> map author df = [''A'', ''A'', ''A'', ''B'']"
  by (simp add: collect_posts_def ab_store_def empty_store_def
      fetch_author_feed_def scenario_env_def quiet_env_def fetch_attempts_done
      ok_reply_def rate_limited_def deliver_def raise_for_status_def json_def mk_item_def
      dict_get_def emit_def drop_duplicates_def Let_def)

text \<open>
  C7. The frame returned by \<^verbatim>\<open>_collect_posts\<close> holds one row for each id collected, and
  that row is the first one with this id in the list of the posts collected; in that list
  the posts of the accounts come in the configured order (for every split of the account
  list into \<open>xs\<close> and \<open>ys\<close>, the posts of \<open>xs\<close> come before the posts of \<open>ys\<close>). In
  the reference scenario, with an empty store, the run appends the four posts
  \<^verbatim>\<open>p1\<close>, \<^verbatim>\<open>p2\<close>, \<^verbatim>\<open>p3\<close>, \<^verbatim>\<open>p4\<close>, and \<^verbatim>\<open>p3\<close> has the author \<^verbatim>\<open>A\<close>.
\<close>

theorem dedup_first_occurrence_wins:
  "(collect_posts e s = Some (df, s1) \<and> accounts s = xs @ ys \<longrightarrow>
      distinct (map uuid df)
      \<and> (\<exists>ps1 new s'. collect_accounts e xs [] s = Some (ps1, s')
           \<and> collect_accounts e (accounts s) [] s = Some (ps1 @ new, s1)
           \<and> (\<forall>p\<in>set ps1. author p \<in> set xs) \<and> (\<forall>p\<in>set new. author p \<in> set ys)
           \<and> uuid ` set df = uuid ` set (ps1 @ new)
           \<and> (\<forall>r\<in>set df. find (\<lambda>q. uuid q = uuid r) (ps1 @ new) = Some r)))
   \<and> (\<exists>s1. run scenario_env ab_store = Some (Inr (), s1)
        \<and> batches (trace s1) = [dict_get (table s1) []]
        \<and> map db_uuid (dict_get (table s1) []) = [Some ''p1'', Some ''p2'', Some ''p3'', Some ''p4'']
        \<and> map db_author (dict_get (table s1) []) = [''A'', ''A'', ''A'', ''B''])"
proof -
  have general: "distinct (map uuid df)
      \<and> (\<exists>ps1 new s'. collect_accounts e xs [] s = Some (ps1, s')
           \<and> collect_accounts e (accounts s) [] s = Some (ps1 @ new, s1)
           \<and> (\<forall>p\<in>set ps1. author p \<in> set xs) \<and> (\<forall>p\<in>set new. author p \<in> set ys)
           \<and> uuid ` set df = uuid ` set (ps1 @ new)
           \<and> (\<forall>r\<in>set df. find (\<lambda>q. uuid q = uuid r) (ps1 @ new) = Some r))"
    if cp: "collect_posts e s = Some (df, s1)" and split: "accounts s = xs @ ys"
  proof -
    from cp obtain ps where c: "collect_accounts e (accounts s) [] s = Some (ps, s1)"
      and df: "df = drop_duplicates ps"
      by (auto simp: collect_posts_def split: option.splits)
    from c split obtain ps1 s' where c1: "collect_accounts e xs [] s = Some (ps1, s')"
      and c2: "collect_accounts e ys ps1 s' = Some (ps, s1)"
      by (auto simp: collect_accounts_append split: option.splits)
    from collect_accounts_result [OF c1] have a1: "\<forall>p\<in>set ps1. author p \<in> set xs" by auto
    from collect_accounts_result [OF c2] obtain new where ps: "ps = ps1 @ new"
      and a2: "\<forall>p\<in>set new. author p \<in> set ys" by auto
    have "distinct (map uuid df)" by (simp add: df drop_duplicates_distinct)
    moreover have "uuid ` set df = uuid ` set (ps1 @ new)"
      using drop_duplicates_uuids [of ps] by (simp add: df ps)
    moreover have "\<forall>r\<in>set df. find (\<lambda>q. uuid q = uuid r) (ps1 @ new) = Some r"
      using drop_duplicates_first [of _ ps] by (simp add: df ps)
    moreover have "collect_accounts e (accounts s) [] s = Some (ps1 @ new, s1)"
      using c ps by simp
    ultimately show ?thesis using c1 a1 a2 by blast
  qed
  from general run_scenario show ?thesis by blast
qed

theorem dedup_first_occurrence_wins_witness:
  "\<exists>df s1. collect_posts scenario_env ab_store = Some (df, s1)
     \<and> accounts ab_store = [''A''] @ [''B'']
     \<and> distinct (map uuid df)
     \<and> map uuid df = [''p1'', ''p2'', ''p3'', ''p4'']
     \<and> map author df = [''A'', ''A'', ''A'', ''B'']"
proof -
  from collect_posts_scenario obtain df s1 where
    c: "collect_posts scenario_env ab_store = Some (df, s1)"
    and u: "map uuid df = [''p1'', ''p2'', ''p3'', ''p4'']"
    and a: "map author df = [''A'', ''A'', ''A'', ''B'']"
    by auto
  have split: "accounts ab_store = [''A''] @ [''B'']"
    by (simp add: ab_store_def empty_store_def)
  from dedup_first_occurrence_wins [of scenario_env ab_store df s1 "[''A'']" "[''B'']"] c split
  have d: "distinct (map uuid df)" by blast
  show ?thesis
    by (rule exI [of _ df], rule exI [of _ s1]) (use c split d u a in simp)
qed

text \<open>
  C10. When the \<^verbatim>\<open>posts\<close> table does not exist, \<^verbatim>\<open>get_existing_uuids\<close> returns the
  empty set (as it does once \<^verbatim>\<open>_ensure_table\<close> has created the table), so the filter of \<^verbatim>\<open>_collect_posts\<close> keeps every post of a feed; the run
  returns when no fetch retries forever, and the only exception that can leave it is the
  failure of the insert.
\<close>

theorem missing_table_gives_no_known_ids:
  assumes "table s = None"
  shows "get_existing_uuids s = {}
    \<and> get_existing_uuids (ensure_table s) = {}
    \<and> (\<forall>a items posts. map uuid (collect_feed (get_existing_uuids s) a items posts)
          = map uuid posts @ dropna (map item_id items))
    \<and> ((\<forall>a\<in>set (accounts s). fetch_author_feed e a \<noteq> None) \<longrightarrow> run e s \<noteq> None)
    \<and> (\<forall>r s1. run e s = Some (r, s1) \<and> r \<noteq> Inr () \<longrightarrow> r = Inl Storage_Error \<and> insert_fails e)"
proof -
  have none: "get_existing_uuids s = {}"
    using assms by (simp add: get_existing_uuids_def)
  have created: "get_existing_uuids (ensure_table s) = {}"
    using assms by (simp add: get_existing_uuids_def ensure_table_def dropna_def)
  have all: "map uuid (collect_feed {} a items posts) = map uuid posts @ dropna (map item_id items)"
    for a items posts
    by (induction items arbitrary: posts) (simp_all add: Let_def item_id_def)
  have returns: "run e s \<noteq> None" if "\<forall>a\<in>set (accounts s). fetch_author_feed e a \<noteq> None"
  proof -
    from collect_accounts_requests [OF that, of "[]" "s\<lparr>existing_uuids := get_existing_uuids s\<rparr>"]
    obtain ps sc where
      "collect_accounts e (accounts s) [] (s\<lparr>existing_uuids := get_existing_uuids s\<rparr>) = Some (ps, sc)"
      by auto
    from run_collected [OF this] show ?thesis by simp
  qed
  have raises: "r = Inl Storage_Error \<and> insert_fails e" if "run e s = Some (r, s1)" "r \<noteq> Inr ()"
    for r s1
    using run_summary [OF that(1)] that(2) by (auto split: if_splits)
  from none created all returns raises show ?thesis by (simp only:) blast
qed

lemma run_fresh:
  "\<exists>s1. run scenario_env fresh_store = Some (Inr (), s1)
     \<and> map db_uuid (dict_get (table s1) []) = [Some ''p1'', Some ''p2'', Some ''p3'', Some ''p4'']"
  by (simp add: run_def collect_posts_def fresh_store_def ab_store_def empty_store_def
      get_existing_uuids_def
      dropna_def fetch_author_feed_def scenario_env_def quiet_env_def fetch_attempts_done
      ok_reply_def rate_limited_def deliver_def raise_for_status_def json_def mk_item_def
      dict_get_def emit_def drop_duplicates_def enrich_dataframe_def append_dataframe_def
      enrich_row_def fetch_metadata_def page_metadata_def Let_def)

theorem missing_table_gives_no_known_ids_witness:
  "table fresh_store = None
   \<and> get_existing_uuids fresh_store = {}
   \<and> run scenario_env fresh_store \<noteq> None
   \<and> (\<exists>s1. run scenario_env fresh_store = Some (Inr (), s1)
         \<and> map db_uuid (dict_get (table s1) []) = [Some ''p1'', Some ''p2'', Some ''p3'', Some ''p4''])"
proof -
  have t: "table fresh_store = None"
    by (simp add: fresh_store_def)
  from missing_table_gives_no_known_ids [OF t, of scenario_env]
  have "get_existing_uuids fresh_store = {}" by blast
  with t run_fresh show ?thesis by auto
qed

subsection \<open>Enrichment\<close>

lemma fetch_metadata_absorbs:
  "page_metadata (snd (web e url)) = Inl err \<Longrightarrow> fst (fetch_metadata e url) = ('''', '''')"
  by (simp add: fetch_metadata_def split_beta)

lemma enrich_row_failed:
  "page_metadata (snd (web e (external_url p))) = Inl err \<Longrightarrow>
   db_page_title (enrich_row e p) = '''' \<and> db_meta_description (enrich_row e p) = ''''"
  by (simp add: enrich_row_def fetch_metadata_absorbs)







subsection \<open>The scheduler loop\<close>

lemma time_of_simps [simp]:
  "time_of [] = 0"
  "time_of (evs1 @ evs2) = time_of evs1 + time_of evs2"
  "time_of (ev # evs) = duration ev + time_of evs"
  by (simp_all add: time_of_def)

lemma sleeps_simps [simp]:
  "sleeps [] = []"
  "sleeps (evs1 @ evs2) = sleeps evs1 @ sleeps evs2"
  "sleeps (Log l m # evs) = sleeps evs"
  "sleeps (Sleep d # evs) = d # sleeps evs"
  "sleeps (Feed_Request a t # evs) = sleeps evs"
  "sleeps (Meta_Request url t # evs) = sleeps evs"
  "sleeps (To_Datetime col # evs) = sleeps evs"
  "sleeps (To_Sql rows # evs) = sleeps evs"
  by (simp_all add: sleeps_def)

lemma ingest_loop_raises:
  "iteration (envs i) m s = Some (Inl err, s1) \<Longrightarrow> ingest_loop envs m i s = Some (err, s1)"
  by (subst ingest_loop.simps) simp

lemma ingest_loop_next:
  "iteration (envs i) m s = Some (Inr (), s2) \<Longrightarrow>
   ingest_loop envs m i s = ingest_loop envs m (Suc i) s2"
  by (subst ingest_loop.simps) simp

text \<open>
  C9. After a run that returns normally and takes \<open>elapsed\<close> seconds, the pass through
  the loop sleeps \<open>interval_minutes * 60 - elapsed\<close> seconds when this is positive and does
  not sleep otherwise, so the time slept is \<open>max 0 (interval_minutes * 60 - elapsed)\<close>, and
  the next pass starts (in the state \<open>s2\<close>) at the later of the end of the run and the
  start of the run plus the interval. With an interval of one minute and a run of 20
  seconds, the next pass starts no sooner than 40 seconds after the start of the run; after
  a run that takes the interval or longer the next pass starts at once. Time is the real
  time of the events of the trace.
\<close>

theorem scheduler_spacing:
  assumes "run e s = Some (Inr (), s1)"
    and "\<not> ctrl_c e"
  shows "\<exists>s2 evs.
      iteration e m s = Some (Inr (), s2)
    \<and> trace s2 = trace s1 @ evs
    \<and> sleeps evs = (if 0 < real_of_int m * 60 - (time_time s1 - time_time s)
                    then [real_of_int m * 60 - (time_time s1 - time_time s)] else [])
    \<and> time_of evs = max 0 (real_of_int m * 60 - (time_time s1 - time_time s))
    \<and> time_time s2 = max (time_time s1) (time_time s + real_of_int m * 60)
    \<and> (m = 1 \<and> time_time s1 - time_time s = 20 \<longrightarrow> time_time s + 40 \<le> time_time s2)
    \<and> (real_of_int m * 60 \<le> time_time s1 - time_time s \<longrightarrow> s2 = s1)
    \<and> (\<forall>envs i. envs i = e \<longrightarrow> ingest_loop envs m i s = ingest_loop envs m (Suc i) s2)"
proof -
  let ?to_sleep = "real_of_int m * 60 - (time_time s1 - time_time s)"
  show ?thesis
  proof (cases "0 < ?to_sleep")
    case True
    let ?evs = "[Log DEBUG (Sleeping ?to_sleep), Sleep ?to_sleep]"
    let ?s2 = "emit ?evs s1"
    have it: "iteration e m s = Some (Inr (), ?s2)"
      using assms True by (simp add: iteration_def Let_def)
    have t: "time_time ?s2 = time_time s1 + ?to_sleep"
      by (simp add: time_time_def)
    have loop: "\<forall>envs i. envs i = e \<longrightarrow> ingest_loop envs m i s = ingest_loop envs m (Suc i) ?s2"
      using it by (auto intro: ingest_loop_next)
    show ?thesis
      by (rule exI [of _ ?s2], rule exI [of _ ?evs]) (use it t loop True in auto)
  next
    case False
    have it: "iteration e m s = Some (Inr (), s1)"
      using assms False by (simp add: iteration_def Let_def)
    have loop: "\<forall>envs i. envs i = e \<longrightarrow> ingest_loop envs m i s = ingest_loop envs m (Suc i) s1"
      using it by (auto intro: ingest_loop_next)
    show ?thesis
      by (rule exI [of _ s1], rule exI [of _ "[]"]) (use it loop False in auto)
  qed
qed

lemma run_slow:
  "\<exists>s1. run slow_env a_store = Some (Inr (), s1) \<and> time_time s1 = 20 \<and> time_time a_store = 0"
  by (simp add: run_def collect_posts_def a_store_def empty_store_def get_existing_uuids_def
      dropna_def fetch_author_feed_def slow_env_def quiet_env_def fetch_attempts_done
      rate_limited_def deliver_def emit_def drop_duplicates_def time_time_def Let_def)

theorem scheduler_spacing_witness:
  "\<exists>s1 s2 evs.
      run slow_env a_store = Some (Inr (), s1)
    \<and> \<not> ctrl_c slow_env
    \<and> time_time s1 - time_time a_store = 20
    \<and> iteration slow_env 1 a_store = Some (Inr (), s2)
    \<and> trace s2 = trace s1 @ evs
    \<and> sleeps evs = [40]
    \<and> time_time s2 = time_time a_store + 60"
proof -
  from run_slow obtain s1 where r: "run slow_env a_store = Some (Inr (), s1)"
    and t1: "time_time s1 = 20" and t0: "time_time a_store = 0"
    by auto
  have c: "\<not> ctrl_c slow_env" by (simp add: slow_env_def quiet_env_def)
  from scheduler_spacing [OF r c, of 1] obtain s2 evs where
    "iteration slow_env 1 a_store = Some (Inr (), s2)"
    "trace s2 = trace s1 @ evs"
    "sleeps evs = (if 0 < real_of_int 1 * 60 - (time_time s1 - time_time a_store)
                    then [real_of_int 1 * 60 - (time_time s1 - time_time a_store)] else [])"
    "time_time s2 = max (time_time s1) (time_time a_store + real_of_int 1 * 60)"
    by blast
  then show ?thesis
    by (intro exI [of _ s1] exI [of _ s2] exI [of _ evs]) (use r c t1 t0 in simp)
qed

lemma run_raises:
  assumes "run e s = Some (Inl err, s1)"
  shows "err = Storage_Error \<and> insert_fails e
    \<and> (\<exists>evs. trace s1 = trace s @ evs @ [Log ERROR DB_Insert_Failed])"
proof -
  from run_summary [OF assms] obtain ps evs where
    sum: "if ps = [] then
          Inl err = (Inr () :: error + unit) \<and> table s1 = table s
          \<and> trace s1 = trace s @ evs @ [Log INFO No_Posts_Collected]
        else
          Inl err = (if insert_fails e then Inl Storage_Error else Inr ())
          \<and> table s1 = (if insert_fails e then table s
                        else Some (dict_get (table s) [] @ map (enrich_row e) (drop_duplicates ps)))
          \<and> trace s1 = trace s @ evs
              @ Log INFO (Found_New (length (drop_duplicates ps)))
              # To_Datetime (map timestamp (drop_duplicates ps))
              # concat (map (\<lambda>p. snd (fetch_metadata e (external_url p))) (drop_duplicates ps))
              @ To_Sql (map (enrich_row e) (drop_duplicates ps))
              # (if insert_fails e then [Log ERROR DB_Insert_Failed]
                 else [Log INFO (Inserted (length (drop_duplicates ps)))])"
    by blast
  then have ne: "ps \<noteq> []" by (cases "ps = []") simp_all
  with sum have f: "insert_fails e" and e: "err = Storage_Error"
    by (simp_all split: if_splits)
  let ?evs = "evs @ Log INFO (Found_New (length (drop_duplicates ps)))
              # To_Datetime (map timestamp (drop_duplicates ps))
              # concat (map (\<lambda>p. snd (fetch_metadata e (external_url p))) (drop_duplicates ps))
              @ [To_Sql (map (enrich_row e) (drop_duplicates ps))]"
  from sum ne f have "trace s1 = trace s @ ?evs @ [Log ERROR DB_Insert_Failed]" by simp
  with f e show ?thesis by blast
qed

lemma ingest_loop_pass_start:
  "pass_start envs m i s0 = Some s \<Longrightarrow> ingest_loop envs m 0 s0 = ingest_loop envs m i s"
proof (induction i arbitrary: s)
  case 0
  then show ?case by simp
next
  case (Suc i)
  from Suc.prems obtain t where t: "pass_start envs m i s0 = Some t"
    and it: "iteration (envs i) m t = Some (Inr (), s)"
    by (auto split: option.splits sum.splits)
  from Suc.IH [OF t] ingest_loop_next [of envs i m t s] it show ?case by simp
qed

text \<open>
  C4, as the code has it. \<^verbatim>\<open>run_forever\<close> catches \<^verbatim>\<open>KeyboardInterrupt\<close> only. When the
  run of a pass raises, which it does only for the failure of the insert, after
  \<^verbatim>\<open>append_dataframe\<close> has logged it, the exception leaves the loop: the loop ends with
  this pass, in the state in which the run raised, with no sleep and no further run; and
  whatever the number of the pass that the loop has come to, \<^verbatim>\<open>run_forever\<close> raises the
  same exception.
\<close>

theorem fatal_error_ends_scheduler_loop:
  assumes "run (envs i) s = Some (Inl err, s1)"
  shows "err = Storage_Error
    \<and> (\<exists>evs. trace s1 = trace s @ evs @ [Log ERROR DB_Insert_Failed])
    \<and> iteration (envs i) m s = Some (Inl err, s1)
    \<and> ingest_loop envs m i s = Some (err, s1)
    \<and> (pass_start envs m i (emit [Log INFO (Starting m)] init) = Some s \<longrightarrow>
         run_forever envs m init = Some (Inl err, s1))"
proof -
  from run_raises [OF assms] have e: "err = Storage_Error"
    and t: "\<exists>evs. trace s1 = trace s @ evs @ [Log ERROR DB_Insert_Failed]"
    by blast+
  have it: "iteration (envs i) m s = Some (Inl err, s1)"
    using assms by (simp add: iteration_def Let_def)
  then have loop: "ingest_loop envs m i s = Some (err, s1)"
    by (rule ingest_loop_raises)
  have "run_forever envs m init = Some (Inl err, s1)"
    if "pass_start envs m i (emit [Log INFO (Starting m)] init) = Some s"
    using ingest_loop_pass_start [OF that] loop e by (simp add: run_forever_def)
  with e t it loop show ?thesis by blast
qed

lemma run_bad_db:
  "\<exists>s1. run bad_db_env (emit [Log INFO (Starting 5)] ab_store) = Some (Inl Storage_Error, s1)
     \<and> feed_requests (trace s1) = [''A'', ''B''] \<and> sleeps (trace s1) = [5]"
  by (simp add: run_def collect_posts_def ab_store_def empty_store_def get_existing_uuids_def
      dropna_def fetch_author_feed_def bad_db_env_def flaky_env_def quiet_env_def
      fetch_attempts_done ok_reply_def rate_limited_def deliver_def raise_for_status_def
      json_def mk_item_def dict_get_def emit_def drop_duplicates_def enrich_dataframe_def
      append_dataframe_def fetch_metadata_def Let_def)

lemma first_pass_slow:
  "iteration slow_env 5 (emit [Log INFO (Starting 5)] ab_store) =
     Some (Inr (), emit [Log INFO (Starting 5),
        Feed_Request ''A'' 20, Log ERROR (Error_Fetching ''A'' Transport_Error),
        Feed_Request ''B'' 20, Log ERROR (Error_Fetching ''B'' Transport_Error),
        Log INFO No_Posts_Collected, Log DEBUG (Sleeping 260), Sleep 260] ab_store)"
  by (simp add: iteration_def run_def collect_posts_def ab_store_def empty_store_def
      get_existing_uuids_def dropna_def fetch_author_feed_def slow_env_def quiet_env_def
      fetch_attempts_done rate_limited_def deliver_def emit_def drop_duplicates_def
      time_time_def time_of_def Let_def)

lemma second_pass_bad_db:
  "\<exists>s1. run bad_db_env (emit [Log INFO (Starting 5),
        Feed_Request ''A'' 20, Log ERROR (Error_Fetching ''A'' Transport_Error),
        Feed_Request ''B'' 20, Log ERROR (Error_Fetching ''B'' Transport_Error),
        Log INFO No_Posts_Collected, Log DEBUG (Sleeping 260), Sleep 260] ab_store)
       = Some (Inl Storage_Error, s1)
     \<and> sleeps (trace s1) = [260, 5]
     \<and> feed_requests (trace s1) = [''A'', ''B'', ''A'', ''B'']"
  by (simp add: run_def collect_posts_def ab_store_def empty_store_def get_existing_uuids_def
      dropna_def fetch_author_feed_def bad_db_env_def flaky_env_def quiet_env_def
      fetch_attempts_done ok_reply_def rate_limited_def deliver_def raise_for_status_def
      json_def mk_item_def dict_get_def emit_def drop_duplicates_def enrich_dataframe_def
      append_dataframe_def fetch_metadata_def Let_def)

theorem fatal_error_ends_scheduler_loop_witness:
  "\<exists>s s1. pass_start two_pass_envs 5 (Suc 0) (emit [Log INFO (Starting 5)] ab_store) = Some s
     \<and> run (two_pass_envs (Suc 0)) s = Some (Inl Storage_Error, s1)
     \<and> ingest_loop two_pass_envs 5 (Suc 0) s = Some (Storage_Error, s1)
     \<and> run_forever two_pass_envs 5 ab_store = Some (Inl Storage_Error, s1)
     \<and> sleeps (trace s1) = [260, 5]
     \<and> feed_requests (trace s1) = [''A'', ''B'', ''A'', ''B'']"
proof -
  let ?s = "emit [Log INFO (Starting 5),
        Feed_Request ''A'' 20, Log ERROR (Error_Fetching ''A'' Transport_Error),
        Feed_Request ''B'' 20, Log ERROR (Error_Fetching ''B'' Transport_Error),
        Log INFO No_Posts_Collected, Log DEBUG (Sleeping 260), Sleep 260] ab_store"
  have p: "pass_start two_pass_envs 5 (Suc 0) (emit [Log INFO (Starting 5)] ab_store) = Some ?s"
    using first_pass_slow by (simp add: two_pass_envs_def)
  from second_pass_bad_db obtain s1 where
    r: "run (two_pass_envs (Suc 0)) ?s = Some (Inl Storage_Error, s1)"
    and sl: "sleeps (trace s1) = [260, 5]"
    and fr: "feed_requests (trace s1) = [''A'', ''B'', ''A'', ''B'']"
    by (auto simp: two_pass_envs_def)
  from fatal_error_ends_scheduler_loop
    [where envs = two_pass_envs and i = "Suc 0" and m = 5 and init = ab_store, OF r] p
  have "ingest_loop two_pass_envs 5 (Suc 0) ?s = Some (Storage_Error, s1)"
    and "run_forever two_pass_envs 5 ab_store = Some (Inl Storage_Error, s1)"
    by blast+
  with p r sl fr show ?thesis
    by (intro exI [of _ ?s] exI [of _ s1]) simp
qed

text \<open>
  C4, as the claim states it, fails: when the database engine rejects the insert of the
  first run, \<^verbatim>\<open>run_forever\<close> ends by raising the storage error, after the two feed
  requests and the one sleep of that single run.
\<close>

theorem storage_error_terminates_run_forever:
  "insert_fails bad_db_env
   \<and> (\<exists>s1. run_forever (\<lambda>i. bad_db_env) 5 ab_store = Some (Inl Storage_Error, s1)
         \<and> feed_requests (trace s1) = [''A'', ''B''] \<and> sleeps (trace s1) = [5])"
proof -
  from run_bad_db obtain s1 where
    r: "run bad_db_env (emit [Log INFO (Starting 5)] ab_store) = Some (Inl Storage_Error, s1)"
    and f: "feed_requests (trace s1) = [''A'', ''B'']" and sl: "sleeps (trace s1) = [5]"
    by auto
  have "iteration ((\<lambda>i. bad_db_env) (0::nat)) 5 (emit [Log INFO (Starting 5)] ab_store)
      = Some (Inl Storage_Error, s1)"
    using r by (simp add: iteration_def Let_def)
  then have "ingest_loop (\<lambda>i. bad_db_env) 5 0 (emit [Log INFO (Starting 5)] ab_store)
      = Some (Storage_Error, s1)"
    by (rule ingest_loop_raises)
  then have "run_forever (\<lambda>i. bad_db_env) 5 ab_store = Some (Inl Storage_Error, s1)"
    by (simp add: run_forever_def)
  moreover have "insert_fails bad_db_env" by (simp add: bad_db_env_def)
  ultimately show ?thesis using f sl by blast
qed

end
